theory Spec2Isabelle
  imports Main
begin

section \<open>The document\<close>

text \<open>
  The widget of \<^verbatim>\<open>src/lib/Dropdown.js\<close> works on a DOM tree that it never restructures:
  it only reads tag names and attributes and edits one class list. An element is a tag
  name, its class list (\<^verbatim>\<open>classList\<close>), its attributes and its children. A reference
  to an element is the path of child indexes that leads to it from the root of the
  document, so two references are the same object exactly when the paths are equal.
\<close>

datatype element =
  Element (tagName: string) (classList: "string list")
    (attributes: "(string \<times> string) list") (childNodes: "element list")

type_synonym node = "nat list"

fun lookup :: "element \<Rightarrow> node \<Rightarrow> element option" where
  "lookup e [] = Some e"
| "lookup e (i # p) =
     (if i < length (childNodes e) then lookup (childNodes e ! i) p else None)"

fun modify :: "(element \<Rightarrow> element) \<Rightarrow> node \<Rightarrow> element \<Rightarrow> element" where
  "modify f [] e = f e"
| "modify f (i # p) e =
     (if i < length (childNodes e)
      then Element (tagName e) (classList e) (attributes e)
             ((childNodes e)[i := modify f p (childNodes e ! i)])
      else e)"

text \<open>\<^verbatim>\<open>classList.contains\<close>, \<^verbatim>\<open>classList.add\<close> and \<^verbatim>\<open>classList.remove\<close> of one element.\<close>

definition classList_contains :: "string \<Rightarrow> element \<Rightarrow> bool" where
  "classList_contains c e = (c \<in> set (classList e))"

definition classList_add :: "string \<Rightarrow> element \<Rightarrow> element" where
  "classList_add c e =
     (if c \<in> set (classList e) then e
      else Element (tagName e) (classList e @ [c]) (attributes e) (childNodes e))"

definition classList_remove :: "string \<Rightarrow> element \<Rightarrow> element" where
  "classList_remove c e =
     Element (tagName e) (removeAll c (classList e)) (attributes e) (childNodes e)"

text \<open>
  \<^verbatim>\<open>getAttribute\<close> gives the value of the first attribute of that name, or null. A
  JavaScript condition on the result holds for a string that is not empty; null and the
  empty string are falsy.
\<close>

definition getAttribute :: "string \<Rightarrow> element \<Rightarrow> string option" where
  "getAttribute name e = map_of (attributes e) name"

definition hasAttribute :: "string \<Rightarrow> element \<Rightarrow> bool" where
  "hasAttribute name e = (getAttribute name e \<noteq> None)"

fun truthy :: "string option \<Rightarrow> bool" where
  "truthy None = False"
| "truthy (Some v) = (v \<noteq> [])"

text \<open>
  \<^verbatim>\<open>querySelector\<close> with a tag name: the first descendant with that tag in document
  order (the element itself is not a candidate), as a path relative to the element.
\<close>

fun qs_elem :: "string \<Rightarrow> element \<Rightarrow> node option"
  and qs_list :: "string \<Rightarrow> element list \<Rightarrow> nat \<Rightarrow> node option" where
  "qs_elem t (Element t' c a ch) = (if t' = t then Some [] else qs_list t ch 0)"
| "qs_list t [] i = None"
| "qs_list t (e # es) i =
     (case qs_elem t e of Some p \<Rightarrow> Some (i # p) | None \<Rightarrow> qs_list t es (Suc i))"

definition querySelector :: "string \<Rightarrow> element \<Rightarrow> node option" where
  "querySelector t e = qs_list t (childNodes e) 0"

text \<open>\<^verbatim>\<open>a.contains(b)\<close>: \<open>b\<close> is \<open>a\<close> or a descendant of \<open>a\<close>.\<close>

definition contains :: "node \<Rightarrow> node \<Rightarrow> bool" where
  "contains a b = (take (length a) b = a)"

section \<open>Timers, listeners and the widget\<close>

text \<open>
  \<^verbatim>\<open>debounce(fn, time)\<close> is called at three places, so a timer callback is the inner
  function of one of three closures: the debounced \<^verbatim>\<open>open\<close> (around \<^verbatim>\<open>_open\<close>), the
  debounced \<^verbatim>\<open>close\<close> (around \<^verbatim>\<open>_close\<close>), or a wrapper made afresh in the
  \<^verbatim>\<open>mouseover\<close> branch of \<^verbatim>\<open>handleEvent\<close> (around the debounced \<^verbatim>\<open>open\<close>).
\<close>

datatype slot = Open_slot | Close_slot | Wrapper_slot

datatype timer = Timer (tid: nat) (due: int) (slot: slot)

datatype evtarget = Node node | Window

text \<open>
  The callbacks \<^verbatim>\<open>onOpen\<close>, \<^verbatim>\<open>onClose\<close> and \<^verbatim>\<open>onSelect\<close> are the caller's code; each
  is the last statement of the method that calls it. The model records the call, with
  the time, in a trace. \<open>Call_open\<close> and \<open>Call_close\<close> record that \<^verbatim>\<open>_open\<close> and
  \<^verbatim>\<open>_close\<close> were entered, so that invocations can be counted. The widget passed as
  first argument of a callback is the one widget of the state.
\<close>

datatype entry = Call_open | Call_close | Cb_onOpen | Cb_onClose | Cb_onSelect node

record state =
  doc :: element
  now :: int
  next_id :: nat
  timers :: "timer list"
  listeners :: "(evtarget \<times> string) list"
  trace :: "(int \<times> entry) list"
  el :: node
  openBy :: "string option"
  trigger :: node
  menu :: node
  timeout :: int
  isOpened :: bool
  isBrowsing :: bool
  open_timeout :: "nat option"
  close_timeout :: "nat option"

definition openClass :: string where
  "openClass = ''expanded''"

definition record_entry :: "entry \<Rightarrow> state \<Rightarrow> state" where
  "record_entry x s = s\<lparr>trace := trace s @ [(now s, x)]\<rparr>"

text \<open>Whether the widget's root element carries the marker class.\<close>

definition expanded :: "state \<Rightarrow> bool" where
  "expanded s =
     (case lookup (doc s) (el s) of None \<Rightarrow> False
      | Some e \<Rightarrow> classList_contains openClass e)"

subsection \<open>The immediate operations\<close>

definition onBrowse :: "state \<Rightarrow> state" where
  "onBrowse s = s\<lparr>isBrowsing := True\<rparr>"

definition onEndBrowse :: "state \<Rightarrow> state" where
  "onEndBrowse s = s\<lparr>isBrowsing := False\<rparr>"

text \<open>\<^verbatim>\<open>Dropdown.prototype._open\<close> (an Isabelle name cannot start with an underscore).\<close>

definition priv_open :: "state \<Rightarrow> state" where
  "priv_open s =
     (let s0 = record_entry Call_open s in
      if isOpened s0 then s0
      else record_entry Cb_onOpen
             (s0\<lparr>doc := modify (classList_add openClass) (el s0) (doc s0),
                 isOpened := True\<rparr>))"

text \<open>\<^verbatim>\<open>Dropdown.prototype._close\<close>.\<close>

definition priv_close :: "state \<Rightarrow> state" where
  "priv_close s =
     (let s0 = record_entry Call_close s in
      if (isBrowsing s0 \<and> isOpened s0) \<or> \<not> isOpened s0 then s0
      else record_entry Cb_onClose
             (s0\<lparr>doc := modify (classList_remove openClass) (el s0) (doc s0),
                 isOpened := False\<rparr>))"

text \<open>
  A method called on a value that is no element (null, undefined) raises a TypeError.
\<close>

datatype error = TypeError

text \<open>
  \<^verbatim>\<open>Dropdown.prototype.select\<close>. \<^verbatim>\<open>element.getAttribute\<close> raises when the argument is no
  element of the document, before any callback.
\<close>

definition select :: "node \<Rightarrow> state \<Rightarrow> error + state" where
  "select element s =
     (case lookup (doc s) element of
        None \<Rightarrow> Inl TypeError
      | Some e \<Rightarrow>
          (let isDisabled = getAttribute ''disabled'' e in
           if truthy isDisabled then Inr s
           else Inr (record_entry (Cb_onSelect element) s)))"

definition toggle :: "state \<Rightarrow> state" where
  "toggle s = (if isOpened s then priv_close s else priv_open s)"

subsection \<open>Timers and debounce\<close>

text \<open>
  \<^verbatim>\<open>setTimeout\<close> takes its delay as a 32-bit signed integer (the type \<^verbatim>\<open>long\<close> of its
  interface): an integer outside that range wraps modulo \<open>2\<^sup>3\<^sup>2\<close>. A negative delay
  counts as 0.
\<close>

definition to_long :: "int \<Rightarrow> int" where
  "to_long x = (x + 2147483648) mod 4294967296 - 2147483648"

definition delay_ms :: "int \<Rightarrow> int" where
  "delay_ms d = max 0 (to_long d)"

text \<open>
  \<^verbatim>\<open>setTimeout\<close> gives a fresh id and queues the callback for \<open>now\<close> plus the delay.
  \<^verbatim>\<open>clearTimeout\<close> of an id drops the pending timer of that id, and does nothing for
  null, undefined or an id that is not pending.
\<close>

definition setTimeout :: "slot \<Rightarrow> int \<Rightarrow> state \<Rightarrow> nat \<times> state" where
  "setTimeout f delay s =
     (next_id s,
      s\<lparr>timers := timers s @ [Timer (next_id s) (now s + delay_ms delay) f],
        next_id := Suc (next_id s)\<rparr>)"

definition clearTimeout :: "nat option \<Rightarrow> state \<Rightarrow> state" where
  "clearTimeout c s =
     (case c of None \<Rightarrow> s
      | Some i \<Rightarrow> s\<lparr>timers := filter (\<lambda>t. tid t \<noteq> i) (timers s)\<rparr>)"

text \<open>
  The variable \<^verbatim>\<open>timeout\<close> of each closure. The two closures kept in the widget have
  one each; a wrapper's variable is born undefined with the wrapper, which is called once
  and dropped.
\<close>

fun cell :: "slot \<Rightarrow> state \<Rightarrow> nat option" where
  "cell Open_slot s = open_timeout s"
| "cell Close_slot s = close_timeout s"
| "cell Wrapper_slot s = None"

fun set_cell :: "slot \<Rightarrow> nat option \<Rightarrow> state \<Rightarrow> state" where
  "set_cell Open_slot v s = s\<lparr>open_timeout := v\<rparr>"
| "set_cell Close_slot v s = s\<lparr>close_timeout := v\<rparr>"
| "set_cell Wrapper_slot v s = s"

text \<open>The function that \<^verbatim>\<open>debounce(fn, time)\<close> returns, called once.\<close>

definition debounce :: "slot \<Rightarrow> int \<Rightarrow> state \<Rightarrow> state" where
  "debounce f time s =
     (let s1 = clearTimeout (cell f s) s;
          (i, s2) = setTimeout f time s1
      in set_cell f (Some i) s2)"

text \<open>
  \<^verbatim>\<open>this.open\<close> and \<^verbatim>\<open>this.close\<close>, as \<^verbatim>\<open>setDebouncedMethods\<close> builds them. The field
  \<^verbatim>\<open>this.timeout\<close> is not assigned after the constructor, so the delay that the closures
  captured is the field.
\<close>

definition debounced_open :: "state \<Rightarrow> state" where
  "debounced_open s = debounce Open_slot (timeout s) s"

definition debounced_close :: "state \<Rightarrow> state" where
  "debounced_close s = debounce Close_slot (timeout s) s"

text \<open>
  A timer fires: it leaves the queue, the clock is at its due time, and its callback
  runs (\<^verbatim>\<open>timeout = null; fn.apply(ctx, args)\<close>).
\<close>

definition fire :: "timer \<Rightarrow> state \<Rightarrow> state" where
  "fire tm s =
     (let s1 = s\<lparr>timers := filter (\<lambda>t. tid t \<noteq> tid tm) (timers s),
                now := max (now s) (due tm)\<rparr>
      in case slot tm of
           Open_slot \<Rightarrow> priv_open (s1\<lparr>open_timeout := None\<rparr>)
         | Close_slot \<Rightarrow> priv_close (s1\<lparr>close_timeout := None\<rparr>)
         | Wrapper_slot \<Rightarrow> debounced_open s1)"

text \<open>The pending timer that fires next: the earliest due, the oldest among equals.\<close>

fun earliest :: "timer list \<Rightarrow> timer option" where
  "earliest [] = None"
| "earliest (x # xs) =
     (case earliest xs of None \<Rightarrow> Some x
      | Some y \<Rightarrow> if due x \<le> due y then Some x else Some y)"

definition next_due :: "state \<Rightarrow> int \<Rightarrow> timer option" where
  "next_due s t =
     (case earliest (timers s) of None \<Rightarrow> None
      | Some x \<Rightarrow> if due x \<le> t then Some x else None)"

fun weight :: "timer \<Rightarrow> nat" where
  "weight (Timer i d Wrapper_slot) = 2"
| "weight (Timer i d f) = 1"

subsection \<open>The event loop\<close>

definition total_weight :: "timer list \<Rightarrow> nat" where
  "total_weight xs = sum_list (map weight xs)"

lemma earliest_mem: "earliest xs = Some x \<Longrightarrow> x \<in> set xs"
  by (induction xs arbitrary: x) (auto split: option.splits if_splits)

lemma total_weight_filter: "total_weight (filter P xs) \<le> total_weight xs"
  by (induction xs) (auto simp: total_weight_def)

lemma total_weight_remove:
  "x \<in> set xs \<Longrightarrow>
   total_weight (filter (\<lambda>t. tid t \<noteq> tid x) xs) + weight x \<le> total_weight xs"
proof (induction xs)
  case Nil
  then show ?case by simp
next
  case (Cons y ys)
  show ?case
  proof (cases "y = x")
    case True
    then show ?thesis
      using total_weight_filter [of "\<lambda>t. tid t \<noteq> tid x" ys]
      by (simp add: total_weight_def)
  next
    case False
    with Cons
    have "total_weight (filter (\<lambda>t. tid t \<noteq> tid x) ys) + weight x \<le> total_weight ys"
      by simp
    then show ?thesis by (simp add: total_weight_def)
  qed
qed

lemma weight_pos: "0 < weight x"
  by (cases x rule: weight.cases) auto

lemma timers_priv_open [simp]: "timers (priv_open s) = timers s"
  by (simp add: priv_open_def record_entry_def Let_def)

lemma timers_priv_close [simp]: "timers (priv_close s) = timers s"
  by (simp add: priv_close_def record_entry_def Let_def)

lemma timers_debounce:
  "timers (debounce f d s) =
     filter (\<lambda>t. cell f s \<noteq> Some (tid t)) (timers s)
       @ [Timer (next_id s) (now s + delay_ms d) f]"
  by (cases f; cases "cell f s")
    (auto simp: debounce_def clearTimeout_def setTimeout_def intro: filter_cong)

lemma fire_decreases:
  assumes "tm \<in> set (timers s)"
  shows "total_weight (timers (fire tm s)) < total_weight (timers s)"
proof -
  let ?r = "filter (\<lambda>t. tid t \<noteq> tid tm) (timers s)"
  have r: "total_weight ?r + weight tm \<le> total_weight (timers s)"
    using assms by (rule total_weight_remove)
  show ?thesis
  proof (cases "slot tm")
    case Open_slot
    then show ?thesis using r weight_pos [of tm] by (simp add: fire_def)
  next
    case Close_slot
    then show ?thesis using r weight_pos [of tm] by (simp add: fire_def)
  next
    case Wrapper_slot
    then have w: "weight tm = 2" by (cases tm) simp
    have "total_weight (timers (fire tm s)) \<le> total_weight ?r + 1"
      using Wrapper_slot total_weight_filter [of _ ?r]
      by (simp add: fire_def debounced_open_def timers_debounce
          total_weight_def [of "_ @ _"] flip: total_weight_def)
    then show ?thesis using r w by simp
  qed
qed

text \<open>
  Time passes until \<open>t\<close>: every pending timer due by then fires, in order, also the
  timers that the fired callbacks queue. A wrapper's callback queues one timer of the
  debounced \<^verbatim>\<open>open\<close>, the other callbacks queue nothing, so the loop ends.
\<close>

function run_until :: "state \<Rightarrow> int \<Rightarrow> state" where
  "run_until s t =
     (case next_due s t of None \<Rightarrow> s\<lparr>now := max (now s) t\<rparr>
      | Some tm \<Rightarrow> run_until (fire tm s) t)"
  by pat_completeness auto

termination
proof (relation "measure (\<lambda>(s, t). total_weight (timers s))")
  show "wf (measure (\<lambda>(s, t). total_weight (timers s)))" by simp
next
  fix s t tm
  assume "next_due s t = Some tm"
  then have "tm \<in> set (timers s)"
    by (auto simp: next_due_def split: option.splits if_splits dest: earliest_mem)
  then show "((fire tm s, t), (s, t)) \<in> measure (\<lambda>(s, t). total_weight (timers s))"
    by (simp add: fire_decreases)
qed

declare run_until.simps [simp del]

subsection \<open>Events\<close>

record event =
  type :: string
  target :: node

text \<open>
  \<^verbatim>\<open>Dropdown.prototype.handleEvent\<close>. The boolean of the result says whether
  \<^verbatim>\<open>event.stopPropagation()\<close> was called; it is called before \<^verbatim>\<open>select\<close>, the one
  call that can raise.
\<close>

definition handleEvent :: "event \<Rightarrow> state \<Rightarrow> bool \<times> (error + state)" where
  "handleEvent ev s =
     (let eventType = type ev;
          eventElement = target ev;
          isTrigger = (eventElement = trigger s);
          isMenu = (contains (menu s) eventElement \<or> eventElement = menu s)
      in if eventType = ''mouseover'' then
           (let s1 = (if isTrigger then debounce Wrapper_slot (timeout s) s else s)
            in (False, Inr (if isMenu then onBrowse s1 else s1)))
         else if eventType = ''mouseout'' then
           (let s1 = (if isTrigger then debounced_close s else s)
            in (False, Inr (if isMenu then debounced_close (onEndBrowse s1) else s1)))
         else if eventType = ''click'' then
           (if isTrigger then (True, Inr (toggle s))
            else if isMenu then (True, select eventElement s)
            else if \<not> isMenu then (False, Inr (priv_close s))
            else (False, Inr s))
         else (False, Inr s))"

text \<open>
  A listener of other code on the page, registered for the bubbling phase as the
  widget's own listeners are: the target and the event type it is registered for, and
  whether it calls \<^verbatim>\<open>stopPropagation\<close> for an event. What such a listener does
  besides is outside the widget: the widget reads only its own fields, the attributes of
  the event target and, in the constructor, the class list of its own root.
\<close>

datatype listener = Listener (on_target: evtarget) (on_type: string) (stops: "event \<Rightarrow> bool")

definition stopped_by :: "listener list \<Rightarrow> evtarget \<Rightarrow> event \<Rightarrow> bool" where
  "stopped_by others c ev =
     (\<exists>l \<in> set others. on_target l = c \<and> on_type l = type ev \<and> stops l ev)"

text \<open>
  The browser delivers an event to the listeners on its target, then on each ancestor,
  then on the window. All listeners on one target run; when one of them has stopped the
  propagation the event goes no further. \<^verbatim>\<open>event.target\<close> stays the element where the
  event began. When the widget's handler raises, the browser reports the error and goes
  on; the handler raises before it has changed anything.
\<close>

fun bubble :: "node \<Rightarrow> evtarget list" where
  "bubble p = (if p = [] then [Node [], Window] else Node p # bubble (butlast p))"

declare bubble.simps [simp del]

fun propagate :: "listener list \<Rightarrow> evtarget list \<Rightarrow> event \<Rightarrow> state \<Rightarrow> state" where
  "propagate others [] ev s = s"
| "propagate others (c # cs) ev s =
     (let (stopped, s') =
            (if (c, type ev) \<in> set (listeners s)
             then (case handleEvent ev s of
                     (st, Inr s1) \<Rightarrow> (st, s1)
                   | (st, Inl e) \<Rightarrow> (st, s))
             else (False, s))
      in if stopped \<or> stopped_by others c ev then s'
         else propagate others cs ev s')"

definition dispatchEvent :: "listener list \<Rightarrow> event \<Rightarrow> state \<Rightarrow> state" where
  "dispatchEvent others ev s = propagate others (bubble (target ev)) ev s"

text \<open>
  Another instance of the widget on the same page, as this one meets it: its listeners,
  each stopping the propagation where its \<^verbatim>\<open>handleEvent\<close> does.
\<close>

definition instance_listeners :: "state \<Rightarrow> listener list" where
  "instance_listeners b =
     map (\<lambda>(c, ty). Listener c ty (\<lambda>ev. fst (handleEvent ev b))) (listeners b)"

subsection \<open>Construction and teardown\<close>

definition addEventListener :: "evtarget \<Rightarrow> string \<Rightarrow> state \<Rightarrow> state" where
  "addEventListener c ty s =
     (if (c, ty) \<in> set (listeners s) then s
      else s\<lparr>listeners := listeners s @ [(c, ty)]\<rparr>)"

definition removeEventListener :: "evtarget \<Rightarrow> string \<Rightarrow> state \<Rightarrow> state" where
  "removeEventListener c ty s = s\<lparr>listeners := removeAll (c, ty) (listeners s)\<rparr>"

definition registerToggleHandlers :: "state \<Rightarrow> state" where
  "registerToggleHandlers s =
     (let s1 = (if openBy s = Some ''hover''
                then addEventListener (Node (menu s)) ''mouseout''
                       (addEventListener (Node (menu s)) ''mouseover''
                         (addEventListener (Node (trigger s)) ''mouseout''
                           (addEventListener (Node (trigger s)) ''mouseover'' s)))
                else addEventListener (Node (trigger s)) ''click'' s)
      in addEventListener Window ''click'' (addEventListener (Node (menu s)) ''click'' s1))"

definition registerEventsHandlers :: "state \<Rightarrow> state" where
  "registerEventsHandlers s = registerToggleHandlers s"

text \<open>
  \<^verbatim>\<open>setDebouncedMethods\<close> makes the two closures; their \<^verbatim>\<open>timeout\<close> variables start
  undefined.
\<close>

definition setDebouncedMethods :: "state \<Rightarrow> state" where
  "setDebouncedMethods s = s\<lparr>open_timeout := None, close_timeout := None\<rparr>"

definition initialize :: "state \<Rightarrow> state" where
  "initialize s =
     registerEventsHandlers (setDebouncedMethods (s\<lparr>isOpened := expanded s\<rparr>))"

text \<open>
  The options of the constructor: the root element, \<^verbatim>\<open>openBy\<close> and \<^verbatim>\<open>wait\<close> (a number,
  or absent). The three callbacks are the trace. The constructor runs in a document at
  time 0 with no timer pending. It raises a TypeError where the source calls a method of
  null: when \<^verbatim>\<open>options.el\<close> is no element, and in \<^verbatim>\<open>registerToggleHandlers\<close> when the
  root has no \<^verbatim>\<open>div\<close> or no \<^verbatim>\<open>ul\<close> below it.
\<close>

record options =
  opt_el :: node
  opt_openBy :: "string option"
  opt_wait :: "int option"

definition Dropdown :: "options \<Rightarrow> element \<Rightarrow> error + state" where
  "Dropdown opts d =
     (case lookup d (opt_el opts) of
        None \<Rightarrow> Inl TypeError
      | Some element \<Rightarrow>
          (case (querySelector ''div'' element, querySelector ''ul'' element) of
             (Some tr, Some mn) \<Rightarrow>
               Inr (initialize
                 \<lparr>doc = d, now = 0, next_id = 1, timers = [], listeners = [], trace = [],
                  el = opt_el opts, openBy = opt_openBy opts,
                  trigger = opt_el opts @ tr, menu = opt_el opts @ mn,
                  timeout = (case opt_wait opts of
                               None \<Rightarrow> 400
                             | Some w \<Rightarrow> if w \<noteq> 0 then w else 400),
                  isOpened = False, isBrowsing = False,
                  open_timeout = None, close_timeout = None\<rparr>)
           | _ \<Rightarrow> Inl TypeError))"

definition destroy :: "state \<Rightarrow> state" where
  "destroy s =
     (let s1 = (if openBy s = Some ''hover''
                then removeEventListener (Node (menu s)) ''mouseout''
                       (removeEventListener (Node (menu s)) ''mouseover''
                         (removeEventListener (Node (trigger s)) ''mouseout''
                           (removeEventListener (Node (trigger s)) ''mouseover'' s)))
                else removeEventListener (Node (trigger s)) ''click'' s)
      in removeEventListener (Node (menu s)) ''click''
           (removeEventListener Window ''click'' s1))"

section \<open>Observations and examples\<close>

text \<open>The callbacks that the caller has seen, in order.\<close>

fun is_callback :: "entry \<Rightarrow> bool" where
  "is_callback Call_open = False"
| "is_callback Call_close = False"
| "is_callback x = True"

definition callbacks :: "state \<Rightarrow> entry list" where
  "callbacks s = filter is_callback (map snd (trace s))"

text \<open>
  Whether the root element, and whether the menu element (the first \<^verbatim>\<open>ul\<close> below the
  root), carries the marker class in the document that the constructor receives.
\<close>

definition root_expanded :: "options \<Rightarrow> element \<Rightarrow> bool" where
  "root_expanded opts d =
     (case lookup d (opt_el opts) of None \<Rightarrow> False
      | Some e \<Rightarrow> classList_contains openClass e)"

definition menu_expanded :: "options \<Rightarrow> element \<Rightarrow> bool" where
  "menu_expanded opts d =
     (case lookup d (opt_el opts) of None \<Rightarrow> False
      | Some e \<Rightarrow>
          (case querySelector ''ul'' e of None \<Rightarrow> False
           | Some mn \<Rightarrow>
               (case lookup e mn of None \<Rightarrow> False
                | Some m \<Rightarrow> classList_contains openClass m)))"

text \<open>
  A page: a paragraph, and a dropdown whose trigger holds a label and whose menu has a
  plain item, an item with the attribute \<^verbatim>\<open>disabled\<close> written without a value, and an
  item with \<^verbatim>\<open>disabled="disabled"\<close>. The menu element carries the marker class, the
  root does not.
\<close>

definition example_doc :: element where
  "example_doc =
     Element ''body'' [] []
       [Element ''p'' [] [] [],
        Element ''div'' [''dropdown''] []
          [Element ''div'' [] [] [Element ''span'' [] [] []],
           Element ''ul'' [''expanded''] []
             [Element ''li'' [] [] [],
              Element ''li'' [] [(''disabled'', [])] [],
              Element ''li'' [] [(''disabled'', ''disabled'')] []]]]"

definition example_options :: options where
  "example_options = \<lparr>opt_el = [1], opt_openBy = None, opt_wait = None\<rparr>"

definition example_state :: state where
  "example_state =
     \<lparr>doc = example_doc, now = 0, next_id = 1, timers = [],
      listeners = [(Node [1, 0], ''click''), (Node [1, 1], ''click''), (Window, ''click'')],
      trace = [], el = [1], openBy = None, trigger = [1, 0], menu = [1, 1],
      timeout = 400, isOpened = False, isBrowsing = False,
      open_timeout = None, close_timeout = None\<rparr>"

text \<open>A dropdown that is the whole document, with the marker class on its root.\<close>

definition example_expanded_doc :: element where
  "example_expanded_doc =
     Element ''div'' [''dropdown'', ''expanded''] []
       [Element ''div'' [] [] [], Element ''ul'' [] [] [Element ''li'' [] [] []]]"

text \<open>A variable that holds no id, or an id that \<^verbatim>\<open>setTimeout\<close> has already given out.\<close>

fun below :: "nat option \<Rightarrow> nat \<Rightarrow> bool" where
  "below None n = True"
| "below (Some i) n = (i < n)"

text \<open>
  The invariant of the timer queue: ids are distinct and older than the next id, and a
  pending timer belongs to the debounced \<^verbatim>\<open>open\<close> (or \<^verbatim>\<open>close\<close>) exactly when that
  closure's \<^verbatim>\<open>timeout\<close> variable holds its id.
\<close>

definition timers_ok :: "state \<Rightarrow> bool" where
  "timers_ok s =
     (distinct (map tid (timers s)) \<and>
      (\<forall>t \<in> set (timers s).
         tid t < next_id s \<and>
         (open_timeout s = Some (tid t)) = (slot t = Open_slot) \<and>
         (close_timeout s = Some (tid t)) = (slot t = Close_slot)) \<and>
      below (open_timeout s) (next_id s) \<and> below (close_timeout s) (next_id s))"

text \<open>The times at which an entry was recorded.\<close>

definition calls :: "entry \<Rightarrow> state \<Rightarrow> int list" where
  "calls x s = map fst (filter (\<lambda>e. snd e = x) (trace s))"

text \<open>The entry that records the invocation a closure's timer makes.\<close>

fun invocation :: "slot \<Rightarrow> entry option" where
  "invocation Open_slot = Some Call_open"
| "invocation Close_slot = Some Call_close"
| "invocation Wrapper_slot = None"

text \<open>
  The timer \<open>tm\<close> of closure \<open>f\<close> is pending and not overdue, and every other
  pending timer belongs to closure \<open>g\<close>.
\<close>

definition only_pending :: "slot \<Rightarrow> slot \<Rightarrow> timer \<Rightarrow> state \<Rightarrow> bool" where
  "only_pending f g tm s =
     (tm \<in> set (timers s) \<and> slot tm = f \<and>
      (\<forall>x \<in> set (timers s). x \<noteq> tm \<longrightarrow> slot x = g) \<and> now s \<le> due tm)"

text \<open>
  The states a widget can be in: built by the constructor, then any delivery of events,
  passing of time and calls of its methods. A widget is live as long as \<^verbatim>\<open>destroy\<close> has
  not been called.
\<close>

inductive live :: "state \<Rightarrow> bool" where
  live_constructed: "Dropdown opts d = Inr s \<Longrightarrow> live s"
| live_delivered: "live s \<Longrightarrow> live (dispatchEvent others ev s)"
| live_handled: "live s \<Longrightarrow> handleEvent ev s = (b, Inr s') \<Longrightarrow> live s'"
| live_elapsed: "live s \<Longrightarrow> live (run_until s t)"
| live_open: "live s \<Longrightarrow> live (debounced_open s)"
| live_close: "live s \<Longrightarrow> live (debounced_close s)"
| live_toggle: "live s \<Longrightarrow> live (toggle s)"
| live_select: "live s \<Longrightarrow> select item s = Inr s' \<Longrightarrow> live s'"
| live_priv_open: "live s \<Longrightarrow> live (priv_open s)"
| live_priv_close: "live s \<Longrightarrow> live (priv_close s)"
| live_onBrowse: "live s \<Longrightarrow> live (onBrowse s)"
| live_onEndBrowse: "live s \<Longrightarrow> live (onEndBrowse s)"

inductive reachable :: "state \<Rightarrow> bool" where
  constructed: "Dropdown opts d = Inr s \<Longrightarrow> reachable s"
| destroyed: "reachable s \<Longrightarrow> reachable (destroy s)"
| delivered: "reachable s \<Longrightarrow> reachable (dispatchEvent others ev s)"
| handled: "reachable s \<Longrightarrow> handleEvent ev s = (b, Inr s') \<Longrightarrow> reachable s'"
| elapsed: "reachable s \<Longrightarrow> reachable (run_until s t)"
| called_open: "reachable s \<Longrightarrow> reachable (debounced_open s)"
| called_close: "reachable s \<Longrightarrow> reachable (debounced_close s)"
| called_toggle: "reachable s \<Longrightarrow> reachable (toggle s)"
| called_select: "reachable s \<Longrightarrow> select item s = Inr s' \<Longrightarrow> reachable s'"
| called_priv_open: "reachable s \<Longrightarrow> reachable (priv_open s)"
| called_priv_close: "reachable s \<Longrightarrow> reachable (priv_close s)"
| called_onBrowse: "reachable s \<Longrightarrow> reachable (onBrowse s)"
| called_onEndBrowse: "reachable s \<Longrightarrow> reachable (onEndBrowse s)"

text \<open>
  Calls of \<^verbatim>\<open>open()\<close> at the times \<open>ts\<close>: time passes until each call.
\<close>

fun open_calls :: "int list \<Rightarrow> state \<Rightarrow> state" where
  "open_calls [] s = s"
| "open_calls (t # ts) s = open_calls ts (debounced_open (run_until s t))"

text \<open>
  A burst: the times do not decrease and consecutive times are less than \<open>D\<close> apart.
\<close>

fun burst_within :: "int \<Rightarrow> int list \<Rightarrow> bool" where
  "burst_within D [] = True"
| "burst_within D [t] = True"
| "burst_within D (t # u # ts) = (t \<le> u \<and> u - t < D \<and> burst_within D (u # ts))"

text \<open>A widget made with \<^verbatim>\<open>openBy: 'hover'\<close> on the example page.\<close>

definition example_hover :: state where
  "example_hover =
     \<lparr>doc = example_doc, now = 0, next_id = 1, timers = [],
      listeners = [(Node [1, 0], ''mouseover''), (Node [1, 0], ''mouseout''),
                   (Node [1, 1], ''mouseover''), (Node [1, 1], ''mouseout''),
                   (Node [1, 1], ''click''), (Window, ''click'')],
      trace = [], el = [1], openBy = Some ''hover'', trigger = [1, 0], menu = [1, 1],
      timeout = 400, isOpened = False, isBrowsing = False,
      open_timeout = None, close_timeout = None\<rparr>"

text \<open>The root element of the widget is an element of the document.\<close>

definition el_ok :: "state \<Rightarrow> bool" where
  "el_ok s = (lookup (doc s) (el s) \<noteq> None)"

text \<open>
  A page with two dropdowns and a paragraph, and the widgets that the constructor makes
  for the first and for the second dropdown.
\<close>

definition example_two_doc :: element where
  "example_two_doc =
     Element ''body'' [] []
       [Element ''div'' [''dropdown''] []
          [Element ''div'' [] [] [], Element ''ul'' [] [] [Element ''li'' [] [] []]],
        Element ''div'' [''dropdown''] []
          [Element ''div'' [] [] [], Element ''ul'' [] [] [Element ''li'' [] [] []]],
        Element ''p'' [] [] []]"

definition example_first :: state where
  "example_first =
     \<lparr>doc = example_two_doc, now = 0, next_id = 1, timers = [],
      listeners = [(Node [0, 0], ''click''), (Node [0, 1], ''click''), (Window, ''click'')],
      trace = [], el = [0], openBy = None, trigger = [0, 0], menu = [0, 1],
      timeout = 400, isOpened = False, isBrowsing = False,
      open_timeout = None, close_timeout = None\<rparr>"

definition example_second :: state where
  "example_second =
     \<lparr>doc = example_two_doc, now = 0, next_id = 1, timers = [],
      listeners = [(Node [1, 0], ''click''), (Node [1, 1], ''click''), (Window, ''click'')],
      trace = [], el = [1], openBy = None, trigger = [1, 0], menu = [1, 1],
      timeout = 400, isOpened = False, isBrowsing = False,
      open_timeout = None, close_timeout = None\<rparr>"

text \<open>
  Whether the widget is closed when a timer due at \<open>d\<close> that is the newest of the queue
  fires: it is closed now, or a pending timer of the debounced \<^verbatim>\<open>close\<close> fires by then
  while the pointer is not in the menu.
\<close>

definition closed_at :: "int \<Rightarrow> state \<Rightarrow> bool" where
  "closed_at d s =
     (\<not> isOpened s \<or>
      (\<not> isBrowsing s \<and> (\<exists>c \<in> set (timers s). slot c = Close_slot \<and> due c \<le> d)))"

text \<open>
  The newest timer of the queue belongs to the debounced \<^verbatim>\<open>open\<close> and is due at \<open>d\<close>;
  every other pending timer belongs to the debounced \<^verbatim>\<open>close\<close>.
\<close>

definition armed_at :: "int \<Rightarrow> state \<Rightarrow> bool" where
  "armed_at d s =
     (timers s \<noteq> [] \<and> slot (last (timers s)) = Open_slot \<and> due (last (timers s)) = d \<and>
      (\<forall>x \<in> set (butlast (timers s)). slot x = Close_slot) \<and> now s \<le> d)"

section \<open>Basic facts\<close>

lemma Dropdown_example: "Dropdown example_options example_doc = Inr example_state"
  by (simp add: Dropdown_def example_options_def example_doc_def example_state_def
      querySelector_def initialize_def setDebouncedMethods_def registerEventsHandlers_def
      registerToggleHandlers_def addEventListener_def expanded_def classList_contains_def
      openClass_def)

lemma lookup_modify: "lookup (modify f p e) p = map_option f (lookup e p)"
  by (induction p arbitrary: e) auto

lemma priv_open_opened: "isOpened s \<Longrightarrow> priv_open s = record_entry Call_open s"
  by (simp add: priv_open_def record_entry_def)

lemma priv_close_closed: "\<not> isOpened s \<Longrightarrow> priv_close s = record_entry Call_close s"
  by (simp add: priv_close_def record_entry_def)

lemma priv_close_browsing: "isBrowsing s \<Longrightarrow> priv_close s = record_entry Call_close s"
  by (simp add: priv_close_def record_entry_def)

lemma callbacks_record_call [simp]:
  "callbacks (record_entry Call_open s) = callbacks s"
  "callbacks (record_entry Call_close s) = callbacks s"
  by (simp_all add: callbacks_def record_entry_def)

lemma record_entry_fields [simp]:
  "isOpened (record_entry x s) = isOpened s"
  "isBrowsing (record_entry x s) = isBrowsing s"
  "doc (record_entry x s) = doc s"
  "el (record_entry x s) = el s"
  "timers (record_entry x s) = timers s"
  "now (record_entry x s) = now s"
  "listeners (record_entry x s) = listeners s"
  "open_timeout (record_entry x s) = open_timeout s"
  "close_timeout (record_entry x s) = close_timeout s"
  "expanded (record_entry x s) = expanded s"
  by (simp_all add: record_entry_def expanded_def)

lemma priv_open_closed:
  assumes "\<not> isOpened s"
  shows "isOpened (priv_open s)"
    and "trace (priv_open s) = trace s @ [(now s, Call_open), (now s, Cb_onOpen)]"
    and "lookup (doc s) (el s) \<noteq> None \<Longrightarrow> expanded (priv_open s)"
    and "isBrowsing (priv_open s) = isBrowsing s"
    and "now (priv_open s) = now s"
  using assms
  by (auto simp: priv_open_def record_entry_def expanded_def lookup_modify
      classList_contains_def classList_add_def)

lemma priv_close_opened:
  assumes "isOpened s" and "\<not> isBrowsing s"
  shows "\<not> isOpened (priv_close s)"
    and "trace (priv_close s) = trace s @ [(now s, Call_close), (now s, Cb_onClose)]"
    and "\<not> expanded (priv_close s)"
    and "isBrowsing (priv_close s) = isBrowsing s"
    and "now (priv_close s) = now s"
  using assms
  by (auto simp: priv_close_def record_entry_def expanded_def lookup_modify
      classList_contains_def classList_remove_def split: option.splits)

lemma initialize_fields [simp]:
  "timeout (initialize s) = timeout s"
  "timers (initialize s) = timers s"
  "now (initialize s) = now s"
  "next_id (initialize s) = next_id s"
  "open_timeout (initialize s) = None"
  "close_timeout (initialize s) = None"
  "isOpened (initialize s) = expanded s"
  "isBrowsing (initialize s) = isBrowsing s"
  "doc (initialize s) = doc s"
  "el (initialize s) = el s"
  "trigger (initialize s) = trigger s"
  "menu (initialize s) = menu s"
  "trace (initialize s) = trace s"
  by (simp_all add: initialize_def registerEventsHandlers_def registerToggleHandlers_def
      setDebouncedMethods_def addEventListener_def Let_def)

lemma addEventListener_mem:
  "x \<in> set (listeners (addEventListener c ty s)) \<longleftrightarrow> x = (c, ty) \<or> x \<in> set (listeners s)"
  by (auto simp: addEventListener_def)

lemma initialize_listens:
  "(Window, ''click'') \<in> set (listeners (initialize s))"
  "(Node (menu s), ''click'') \<in> set (listeners (initialize s))"
  by (simp_all add: initialize_def registerEventsHandlers_def registerToggleHandlers_def
      setDebouncedMethods_def addEventListener_mem Let_def)

lemma Dropdown_InrD:
  assumes "Dropdown opts d = Inr s"
  obtains e tr mn where "lookup d (opt_el opts) = Some e"
    and "querySelector ''div'' e = Some tr" and "querySelector ''ul'' e = Some mn"
    and "s = initialize
          \<lparr>doc = d, now = 0, next_id = 1, timers = [], listeners = [], trace = [],
           el = opt_el opts, openBy = opt_openBy opts,
           trigger = opt_el opts @ tr, menu = opt_el opts @ mn,
           timeout = (case opt_wait opts of None \<Rightarrow> 400
                      | Some w \<Rightarrow> if w \<noteq> 0 then w else 400),
           isOpened = False, isBrowsing = False,
           open_timeout = None, close_timeout = None\<rparr>"
  using assms by (auto simp: Dropdown_def split: option.splits)

lemma Dropdown_example_wait:
  "Dropdown (example_options\<lparr>opt_wait := w\<rparr>) example_doc =
     Inr (example_state\<lparr>timeout := (case w of None \<Rightarrow> 400
                                     | Some w \<Rightarrow> if w \<noteq> 0 then w else 400)\<rparr>)"
  by (simp add: Dropdown_def example_options_def example_doc_def example_state_def
      querySelector_def initialize_def setDebouncedMethods_def registerEventsHandlers_def
      registerToggleHandlers_def addEventListener_def expanded_def classList_contains_def
      openClass_def)

lemma priv_close_frame [simp]:
  "trigger (priv_close s) = trigger s"
  "menu (priv_close s) = menu s"
  "listeners (priv_close s) = listeners s"
  "now (priv_close s) = now s"
  by (simp_all add: priv_close_def record_entry_def Let_def)

lemma Window_in_bubble: "Window \<in> set (bubble p)"
proof (induction p rule: bubble.induct)
  case (1 p)
  then show ?case by (subst bubble.simps) simp
qed

lemma to_long_id: "- 2147483648 \<le> d \<Longrightarrow> d < 2147483648 \<Longrightarrow> to_long d = d"
  by (simp add: to_long_def)

lemma delay_ms_id: "- 2147483648 \<le> d \<Longrightarrow> d < 2147483648 \<Longrightarrow> delay_ms d = max 0 d"
  by (simp add: delay_ms_def to_long_id)

lemma delay_ms_nonneg: "0 \<le> delay_ms d"
  by (simp add: delay_ms_def)

lemma select_cases:
  "select item s = Inr s' \<Longrightarrow> s' = s \<or> s' = record_entry (Cb_onSelect item) s"
  by (auto simp: select_def Let_def split: option.splits if_splits)

lemma select_enabled:
  assumes "lookup (doc s) item = Some e" and "\<not> hasAttribute ''disabled'' e"
  shows "select item s = Inr (s\<lparr>trace := trace s @ [(now s, Cb_onSelect item)]\<rparr>)"
  using assms by (simp add: select_def hasAttribute_def record_entry_def)

lemma select_disabled_value:
  assumes "lookup (doc s) item = Some e" and "getAttribute ''disabled'' e = Some v" and "v \<noteq> []"
  shows "select item s = Inr s"
  using assms by (simp add: select_def)

lemma select_no_element: "lookup (doc s) item = None \<Longrightarrow> select item s = Inl TypeError"
  by (simp add: select_def)

lemma handleEvent_outside_click:
  assumes "type ev = ''click''" and "target ev \<noteq> trigger s"
    and "target ev \<noteq> menu s" and "\<not> contains (menu s) (target ev)"
  shows "handleEvent ev s = (False, Inr (priv_close s))"
  using assms by (simp add: handleEvent_def)

lemma handleEvent_invariant:
  assumes h: "handleEvent ev s = (b, Inr s')" and i: "I s"
    and t: "\<And>s. I s \<Longrightarrow> I (toggle s)" and d: "\<And>s f d. I s \<Longrightarrow> I (debounce f d s)"
    and c: "\<And>s. I s \<Longrightarrow> I (priv_close s)" and br: "\<And>s v. I s \<Longrightarrow> I (s\<lparr>isBrowsing := v\<rparr>)"
    and r: "\<And>s x. I s \<Longrightarrow> I (record_entry x s)"
  shows "I s'"
proof -
  let ?tr = "target ev = trigger s"
  let ?mn = "contains (menu s) (target ev) \<or> target ev = menu s"
  consider (over) "type ev = ''mouseover''" | (out) "type ev = ''mouseout''"
    | (click) "type ev = ''click''"
    | (other) "type ev \<noteq> ''mouseover''" "type ev \<noteq> ''mouseout''" "type ev \<noteq> ''click''"
    by blast
  then show ?thesis
  proof cases
    case over
    then have "s' = (let s1 = (if ?tr then debounce Wrapper_slot (timeout s) s else s)
        in if ?mn then onBrowse s1 else s1)"
      using h by (simp add: handleEvent_def Let_def)
    then show ?thesis using i d br by (auto simp: Let_def onBrowse_def)
  next
    case out
    then have "s' = (let s1 = (if ?tr then debounced_close s else s)
        in if ?mn then debounced_close (onEndBrowse s1) else s1)"
      using h by (simp add: handleEvent_def Let_def)
    then show ?thesis using i d br by (auto simp: Let_def onEndBrowse_def debounced_close_def)
  next
    case click
    show ?thesis
    proof (cases ?tr)
      case True
      with click h have "s' = toggle s" by (simp add: handleEvent_def)
      then show ?thesis using i t by simp
    next
      case False
      show ?thesis
      proof (cases ?mn)
        case True
        with click False h have "select (target ev) s = Inr s'"
          by (simp add: handleEvent_def Let_def)
        then show ?thesis using select_cases i r by blast
      next
        case m: False
        with click False h have "s' = priv_close s" by (simp add: handleEvent_def Let_def)
        then show ?thesis using i c by simp
      qed
    qed
  next
    case other
    then have "s' = s" using h by (simp add: handleEvent_def Let_def)
    then show ?thesis using i by simp
  qed
qed

lemma propagate_skip:
  "(c, type ev) \<notin> set (listeners s) \<Longrightarrow>
   propagate others (c # cs) ev s
     = (if stopped_by others c ev then s else propagate others cs ev s)"
  by simp

lemma propagate_handle:
  "(c, type ev) \<in> set (listeners s) \<Longrightarrow> handleEvent ev s = (st, Inr s1) \<Longrightarrow>
   propagate others (c # cs) ev s
     = (if st \<or> stopped_by others c ev then s1 else propagate others cs ev s1)"
  by simp

lemma propagate_raise:
  "(c, type ev) \<in> set (listeners s) \<Longrightarrow> handleEvent ev s = (st, Inl e) \<Longrightarrow>
   propagate others (c # cs) ev s
     = (if st \<or> stopped_by others c ev then s else propagate others cs ev s)"
  by simp

lemma propagate_invariant:
  assumes "I s" and h: "\<And>s b s'. I s \<Longrightarrow> handleEvent ev s = (b, Inr s') \<Longrightarrow> I s'"
  shows "I (propagate others cs ev s)"
  using assms(1)
proof (induction cs arbitrary: s)
  case Nil
  then show ?case by simp
next
  case (Cons c cs)
  show ?case
  proof (cases "(c, type ev) \<in> set (listeners s)")
    case False
    then have "propagate others (c # cs) ev s
        = (if stopped_by others c ev then s else propagate others cs ev s)"
      by (rule propagate_skip)
    then show ?thesis using Cons by simp
  next
    case True
    obtain st r where hr: "handleEvent ev s = (st, r)" by (cases "handleEvent ev s")
    show ?thesis
    proof (cases r)
      case (Inl e)
      with True hr have "propagate others (c # cs) ev s
          = (if st \<or> stopped_by others c ev then s else propagate others cs ev s)"
        by (simp only: propagate_raise)
      then show ?thesis using Cons by simp
    next
      case (Inr s1)
      with hr Cons.prems have i1: "I s1" using h by blast
      with Cons.IH have i2: "I (propagate others cs ev s1)" by blast
      from True hr Inr have "propagate others (c # cs) ev s
          = (if st \<or> stopped_by others c ev then s1 else propagate others cs ev s1)"
        by (simp only: propagate_handle)
      then show ?thesis using i1 i2 by simp
    qed
  qed
qed

lemma propagate_closed:
  assumes "type ev = ''click''" and "target ev \<noteq> trigger s"
    and "target ev \<noteq> menu s" and "\<not> contains (menu s) (target ev)"
    and "\<not> isOpened s"
  shows "\<exists>k. propagate others cs ev s = s\<lparr>trace := trace s @ replicate k (now s, Call_close)\<rparr>"
  using assms
proof (induction cs arbitrary: s)
  case Nil
  have "propagate others [] ev s = s\<lparr>trace := trace s @ replicate 0 (now s, Call_close)\<rparr>"
    by simp
  then show ?case by blast
next
  case (Cons c cs)
  have zero: "s = s\<lparr>trace := trace s @ replicate 0 (now s, Call_close)\<rparr>" by simp
  let ?s1 = "priv_close s"
  have s1: "?s1 = s\<lparr>trace := trace s @ [(now s, Call_close)]\<rparr>"
    using Cons.prems by (simp add: priv_close_closed record_entry_def)
  have one: "?s1 = s\<lparr>trace := trace s @ replicate 1 (now s, Call_close)\<rparr>"
    by (simp add: s1)
  show ?case
  proof (cases "(c, type ev) \<in> set (listeners s)")
    case False
    show ?thesis
    proof (cases "stopped_by others c ev")
      case True
      with False have "propagate others (c # cs) ev s = s" by simp
      with zero show ?thesis by metis
    next
      case st: False
      with False Cons show ?thesis by simp
    qed
  next
    case True
    have h: "handleEvent ev s = (False, Inr ?s1)"
      using Cons.prems by (simp add: handleEvent_outside_click)
    show ?thesis
    proof (cases "stopped_by others c ev")
      case st: True
      with True h have "propagate others (c # cs) ev s = ?s1" by simp
      with one show ?thesis by metis
    next
      case st: False
      have "\<exists>k. propagate others cs ev ?s1
          = ?s1\<lparr>trace := trace ?s1 @ replicate k (now ?s1, Call_close)\<rparr>"
        using Cons.prems by (intro Cons.IH) (simp_all add: s1)
      then obtain k where "propagate others cs ev ?s1
          = ?s1\<lparr>trace := trace ?s1 @ replicate k (now ?s1, Call_close)\<rparr>" ..
      then have "propagate others (c # cs) ev s
          = s\<lparr>trace := trace s @ replicate (Suc k) (now s, Call_close)\<rparr>"
        using True h st by (simp add: s1)
      then show ?thesis by blast
    qed
  qed
qed

lemma propagate_opened:
  assumes "type ev = ''click''" and "target ev \<noteq> trigger s"
    and "target ev \<noteq> menu s" and "\<not> contains (menu s) (target ev)"
    and "isOpened s" and "\<not> isBrowsing s"
    and "(Window, ''click'') \<in> set (listeners s)" and "Window \<in> set cs"
    and "\<forall>c \<in> set cs. c \<noteq> Window \<longrightarrow> \<not> stopped_by others c ev"
  shows "\<exists>k. propagate others cs ev s
           = (priv_close s)\<lparr>trace := trace (priv_close s) @ replicate k (now s, Call_close)\<rparr>"
  using assms
proof (induction cs)
  case Nil
  then show ?case by simp
next
  case (Cons c cs)
  show ?case
  proof (cases "(c, type ev) \<in> set (listeners s)")
    case False
    with Cons.prems have w: "c \<noteq> Window" by auto
    with Cons.prems have "Window \<in> set cs" and "\<not> stopped_by others c ev" by simp_all
    with Cons False show ?thesis by simp
  next
    case True
    let ?s1 = "priv_close s"
    have h: "handleEvent ev s = (False, Inr ?s1)"
      using Cons.prems by (simp add: handleEvent_outside_click)
    have zero: "?s1 = ?s1\<lparr>trace := trace ?s1 @ replicate 0 (now s, Call_close)\<rparr>" by simp
    show ?thesis
    proof (cases "stopped_by others c ev")
      case st: True
      with True h have "propagate others (c # cs) ev s = ?s1" by simp
      with zero show ?thesis by metis
    next
      case st: False
      have "\<exists>k. propagate others cs ev ?s1
          = ?s1\<lparr>trace := trace ?s1 @ replicate k (now ?s1, Call_close)\<rparr>"
        using Cons.prems by (intro propagate_closed) (simp_all add: priv_close_opened)
      then show ?thesis using True h st by simp
    qed
  qed
qed

lemma below_iff: "below c n \<longleftrightarrow> (\<forall>i. c = Some i \<longrightarrow> i < n)"
  by (cases c) auto

lemma run_until_rule:
  assumes "P s"
    and step: "\<And>s tm. P s \<Longrightarrow> next_due s t = Some tm \<Longrightarrow> P (fire tm s)"
    and stop: "\<And>s. P s \<Longrightarrow> next_due s t = None \<Longrightarrow> Q (s\<lparr>now := max (now s) t\<rparr>)"
  shows "Q (run_until s t)"
  using assms
proof (induction s t rule: run_until.induct)
  case (1 s t)
  show ?case
  proof (cases "next_due s t")
    case None
    then have "Q (s\<lparr>now := max (now s) t\<rparr>)" using "1.prems" by blast
    then show ?thesis using None by (subst run_until.simps) simp
  next
    case (Some tm)
    then have "P (fire tm s)" using "1.prems" by blast
    then have "Q (run_until (fire tm s) t)"
      using Some "1.prems" by (intro "1.IH") blast+
    then show ?thesis using Some by (subst run_until.simps) simp
  qed
qed

lemma earliest_None [simp]: "earliest xs = None \<longleftrightarrow> xs = []"
  by (induction xs) (auto split: option.splits)

lemma earliest_le: "earliest xs = Some x \<Longrightarrow> y \<in> set xs \<Longrightarrow> due x \<le> due y"
  by (induction xs arbitrary: x) (auto split: option.splits if_splits)

lemma next_due_SomeD:
  assumes "next_due s t = Some tm"
  shows "tm \<in> set (timers s)" and "due tm \<le> t" and "\<forall>y \<in> set (timers s). due tm \<le> due y"
  using assms
  by (auto simp: next_due_def split: option.splits if_splits dest: earliest_mem earliest_le)

lemma next_due_NoneD:
  assumes "next_due s t = None" and "tm \<in> set (timers s)"
  shows "t < due tm"
proof -
  from assms(2) obtain x where x: "earliest (timers s) = Some x"
    by (cases "earliest (timers s)") auto
  with assms(1) have "t < due x" by (auto simp: next_due_def split: if_splits)
  with earliest_le [OF x assms(2)] show ?thesis by simp
qed

lemma timers_ok_frame:
  assumes "timers_ok s" and "timers s' = timers s" and "next_id s' = next_id s"
    and "open_timeout s' = open_timeout s" and "close_timeout s' = close_timeout s"
  shows "timers_ok s'"
  using assms by (simp add: timers_ok_def)

lemma priv_frame [simp]:
  "next_id (priv_open s) = next_id s" "open_timeout (priv_open s) = open_timeout s"
  "close_timeout (priv_open s) = close_timeout s"
  "next_id (priv_close s) = next_id s" "open_timeout (priv_close s) = open_timeout s"
  "close_timeout (priv_close s) = close_timeout s"
  by (simp_all add: priv_open_def priv_close_def record_entry_def Let_def)

lemma timers_ok_priv: "timers_ok s \<Longrightarrow> timers_ok (priv_open s)"
  "timers_ok s \<Longrightarrow> timers_ok (priv_close s)"
  by (erule timers_ok_frame; simp)+

lemma debounce_eq:
  "debounce f d s =
     set_cell f (Some (next_id s))
       (s\<lparr>timers := filter (\<lambda>t. cell f s \<noteq> Some (tid t)) (timers s)
                     @ [Timer (next_id s) (now s + delay_ms d) f],
          next_id := Suc (next_id s)\<rparr>)"
proof (cases "cell f s")
  case None
  then show ?thesis
    by (simp add: debounce_def clearTimeout_def setTimeout_def)
next
  case (Some i)
  have "filter (\<lambda>t. tid t \<noteq> i) (timers s) = filter (\<lambda>t. i \<noteq> tid t) (timers s)"
    by (rule filter_cong) auto
  with Some show ?thesis
    by (simp add: debounce_def clearTimeout_def setTimeout_def)
qed

lemma debounce_frame [simp]:
  "next_id (debounce f d s) = Suc (next_id s)"
  "now (debounce f d s) = now s" "trace (debounce f d s) = trace s"
  "isOpened (debounce f d s) = isOpened s" "isBrowsing (debounce f d s) = isBrowsing s"
  "timeout (debounce f d s) = timeout s" "doc (debounce f d s) = doc s"
  "el (debounce f d s) = el s" "trigger (debounce f d s) = trigger s"
  "menu (debounce f d s) = menu s" "listeners (debounce f d s) = listeners s"
  by (cases f; simp add: debounce_eq)+

lemma debounce_cells:
  "open_timeout (debounce f d s) = (if f = Open_slot then Some (next_id s) else open_timeout s)"
  "close_timeout (debounce f d s) = (if f = Close_slot then Some (next_id s) else close_timeout s)"
  by (cases f; simp add: debounce_eq)+

lemma timers_ok_remove:
  assumes "timers_ok s"
  shows "timers_ok (s\<lparr>timers := filter (\<lambda>t. tid t \<noteq> i) (timers s), now := n\<rparr>)"
  using assms by (auto simp: timers_ok_def distinct_map_filter)

lemma timers_ok_debounce:
  assumes "timers_ok s"
  shows "timers_ok (debounce f d s)"
proof -
  let ?keep = "filter (\<lambda>t. cell f s \<noteq> Some (tid t)) (timers s)"
  let ?new = "Timer (next_id s) (now s + delay_ms d) f"
  have old: "\<forall>t \<in> set (timers s). tid t < next_id s"
    and d: "distinct (map tid (timers s))"
    and o: "\<forall>t \<in> set (timers s). (open_timeout s = Some (tid t)) = (slot t = Open_slot)"
    and c: "\<forall>t \<in> set (timers s). (close_timeout s = Some (tid t)) = (slot t = Close_slot)"
    and bo: "\<forall>i. open_timeout s = Some i \<longrightarrow> i < next_id s"
    and bc: "\<forall>i. close_timeout s = Some i \<longrightarrow> i < next_id s"
    using assms by (auto simp: timers_ok_def below_iff)
  have 1: "distinct (map tid (?keep @ [?new]))"
    using d old by (auto simp: distinct_map_filter)
  have 2: "\<forall>t \<in> set (?keep @ [?new]). tid t < Suc (next_id s)"
    using old by auto
  have 3: "\<forall>t \<in> set (?keep @ [?new]).
      (open_timeout (debounce f d s) = Some (tid t)) = (slot t = Open_slot)"
    using o old bo by (cases f) (auto simp: debounce_cells)
  have 4: "\<forall>t \<in> set (?keep @ [?new]).
      (close_timeout (debounce f d s) = Some (tid t)) = (slot t = Close_slot)"
    using c old bc by (cases f) (auto simp: debounce_cells)
  have 5: "\<forall>i. open_timeout (debounce f d s) = Some i \<longrightarrow> i < Suc (next_id s)"
    using bo by (auto simp: debounce_cells less_Suc_eq)
  have 6: "\<forall>i. close_timeout (debounce f d s) = Some i \<longrightarrow> i < Suc (next_id s)"
    using bc by (auto simp: debounce_cells less_Suc_eq)
  show ?thesis
    unfolding timers_ok_def timers_debounce debounce_frame
    using 1 2 3 4 5 6 by (simp add: below_iff)
qed

lemma timers_ok_fire:
  assumes "timers_ok s" and "tm \<in> set (timers s)"
  shows "timers_ok (fire tm s)"
proof -
  let ?s1 = "s\<lparr>timers := filter (\<lambda>t. tid t \<noteq> tid tm) (timers s), now := max (now s) (due tm)\<rparr>"
  have ok1: "timers_ok ?s1"
    using assms(1) by (rule timers_ok_remove)
  have o: "\<forall>t \<in> set (timers s). (open_timeout s = Some (tid t)) = (slot t = Open_slot)"
    and c: "\<forall>t \<in> set (timers s). (close_timeout s = Some (tid t)) = (slot t = Close_slot)"
    using assms(1) by (auto simp: timers_ok_def)
  show ?thesis
  proof (cases "slot tm")
    case Open_slot
    have "\<forall>t \<in> set (timers ?s1). slot t \<noteq> Open_slot"
    proof
      fix t assume t: "t \<in> set (timers ?s1)"
      show "slot t \<noteq> Open_slot"
      proof
        assume "slot t = Open_slot"
        with t o have "open_timeout s = Some (tid t)" by simp
        moreover from o assms(2) Open_slot have "open_timeout s = Some (tid tm)" by simp
        ultimately show False using t by simp
      qed
    qed
    with ok1 have "timers_ok (?s1\<lparr>open_timeout := None\<rparr>)"
      by (simp add: timers_ok_def)
    then show ?thesis using Open_slot by (simp add: fire_def timers_ok_priv)
  next
    case Close_slot
    have "\<forall>t \<in> set (timers ?s1). slot t \<noteq> Close_slot"
    proof
      fix t assume t: "t \<in> set (timers ?s1)"
      show "slot t \<noteq> Close_slot"
      proof
        assume "slot t = Close_slot"
        with t c have "close_timeout s = Some (tid t)" by simp
        moreover from c assms(2) Close_slot have "close_timeout s = Some (tid tm)" by simp
        ultimately show False using t by simp
      qed
    qed
    with ok1 have "timers_ok (?s1\<lparr>close_timeout := None\<rparr>)"
      by (simp add: timers_ok_def)
    then show ?thesis using Close_slot by (simp add: fire_def timers_ok_priv)
  next
    case Wrapper_slot
    then show ?thesis using ok1 by (simp add: fire_def debounced_open_def timers_ok_debounce)
  qed
qed

lemma timers_ok_run_until: "timers_ok s \<Longrightarrow> timers_ok (run_until s t)"
proof (rule run_until_rule [where P = timers_ok])
  fix s tm
  assume "timers_ok s" "next_due s t = Some tm"
  then show "timers_ok (fire tm s)" by (simp add: timers_ok_fire next_due_SomeD)
next
  fix s
  assume "timers_ok s"
  then show "timers_ok (s\<lparr>now := max (now s) t\<rparr>)"
    by (simp add: timers_ok_def)
qed

lemma calls_priv_open:
  "calls x (priv_open s) =
     calls x s @ (if x = Call_open \<or> (x = Cb_onOpen \<and> \<not> isOpened s) then [now s] else [])"
  by (auto simp: calls_def priv_open_def record_entry_def Let_def)

lemma calls_priv_close:
  "calls x (priv_close s) =
     calls x s @ (if x = Call_close \<or> (x = Cb_onClose \<and> isOpened s \<and> \<not> isBrowsing s)
                  then [now s] else [])"
  by (auto simp: calls_def priv_close_def record_entry_def Let_def)

lemma calls_debounce [simp]: "calls x (debounce f d s) = calls x s"
  by (simp add: calls_def)

lemma tid_inj_on_timers:
  assumes "timers_ok s" and "x \<in> set (timers s)" and "y \<in> set (timers s)" and "tid x = tid y"
  shows "x = y"
  using assms by (auto simp: timers_ok_def distinct_map dest: inj_onD)

lemma fire_other:
  assumes ok: "timers_ok s" and p: "only_pending f g tm s"
    and f: "invocation f = Some x" and g: "invocation g \<noteq> None" "g \<noteq> f"
    and y: "y \<in> set (timers s)" "y \<noteq> tm" "due y \<le> due tm"
  shows "only_pending f g tm (fire y s)" and "calls x (fire y s) = calls x s"
proof -
  from p y have sy: "slot y = g" by (simp add: only_pending_def)
  from ok p y have ty: "tid tm \<noteq> tid y"
    using tid_inj_on_timers [of s tm y] by (auto simp: only_pending_def)
  have t: "timers (fire y s) = filter (\<lambda>t. tid t \<noteq> tid y) (timers s)"
    using sy g by (cases g) (simp_all add: fire_def)
  have n: "now (fire y s) = max (now s) (due y)"
    using sy g by (cases g) (simp_all add: fire_def priv_open_def record_entry_def Let_def)
  show "only_pending f g tm (fire y s)"
    using p ty y by (auto simp: only_pending_def t n)
  show "calls x (fire y s) = calls x s"
    using sy f g by (cases g; cases f) (simp_all add: fire_def calls_priv_open calls_priv_close,
        simp_all add: calls_def)
qed

lemma fire_self:
  assumes ok: "timers_ok s" and p: "only_pending f g tm s"
    and f: "invocation f = Some x"
  shows "\<forall>y \<in> set (timers (fire tm s)). slot y = g"
    and "calls x (fire tm s) = calls x s @ [due tm]"
proof -
  from p have sf: "slot tm = f" and n: "max (now s) (due tm) = due tm"
    by (simp_all add: only_pending_def)
  have t: "timers (fire tm s) = filter (\<lambda>t. tid t \<noteq> tid tm) (timers s)"
    using sf f by (cases f) (simp_all add: fire_def)
  show "\<forall>y \<in> set (timers (fire tm s)). slot y = g"
    using p by (auto simp: t only_pending_def)
  show "calls x (fire tm s) = calls x s @ [due tm]"
    using sf f n
    by (cases f) (simp_all add: fire_def calls_priv_open calls_priv_close, simp_all add: calls_def)
qed

lemma fire_rest:
  assumes "\<forall>y \<in> set (timers s). slot y = g" and "invocation g \<noteq> None" "g \<noteq> f"
    and "invocation f = Some x" and "y \<in> set (timers s)"
  shows "\<forall>y \<in> set (timers (fire y s)). slot y = g" and "calls x (fire y s) = calls x s"
proof -
  from assms have sy: "slot y = g" by simp
  have t: "timers (fire y s) = filter (\<lambda>t. tid t \<noteq> tid y) (timers s)"
    using sy assms(2) by (cases g) (simp_all add: fire_def)
  show "\<forall>y \<in> set (timers (fire y s)). slot y = g"
    using assms(1) by (simp add: t)
  show "calls x (fire y s) = calls x s"
    using sy assms by (cases g; cases f) (simp_all add: fire_def calls_priv_open calls_priv_close,
        simp_all add: calls_def)
qed

lemma pending_survives_run:
  assumes "timers_ok s" and "only_pending f g tm s"
    and f: "invocation f = Some x" and g: "invocation g \<noteq> None" "g \<noteq> f"
    and t: "t < due tm"
  shows "timers_ok (run_until s t) \<and> only_pending f g tm (run_until s t) \<and>
         calls x (run_until s t) = calls x s"
proof (rule run_until_rule
    [where P = "\<lambda>s'. timers_ok s' \<and> only_pending f g tm s' \<and> calls x s' = calls x s"])
  show "timers_ok s \<and> only_pending f g tm s \<and> calls x s = calls x s"
    using assms by simp
next
  fix s' y
  assume P: "timers_ok s' \<and> only_pending f g tm s' \<and> calls x s' = calls x s"
    and nd: "next_due s' t = Some y"
  from nd have y: "y \<in> set (timers s')" "due y \<le> t" by (simp_all add: next_due_SomeD)
  with t have ne: "y \<noteq> tm" and le: "due y \<le> due tm" by auto
  from P have ok: "timers_ok s'" and p: "only_pending f g tm s'"
    and c: "calls x s' = calls x s" by simp_all
  show "timers_ok (fire y s') \<and> only_pending f g tm (fire y s') \<and>
      calls x (fire y s') = calls x s"
    using fire_other [OF ok p f g y(1) ne le] timers_ok_fire [OF ok y(1)] c by simp
next
  fix s'
  assume "timers_ok s' \<and> only_pending f g tm s' \<and> calls x s' = calls x s"
  then show "timers_ok (s'\<lparr>now := max (now s') t\<rparr>) \<and>
      only_pending f g tm (s'\<lparr>now := max (now s') t\<rparr>) \<and>
      calls x (s'\<lparr>now := max (now s') t\<rparr>) = calls x s"
    using t by (auto simp: timers_ok_def only_pending_def calls_def)
qed

lemma pending_survives_debounce:
  assumes ok: "timers_ok s" and p: "only_pending f g tm s" and g: "g \<noteq> f"
  shows "only_pending f g tm (debounce g d s)"
proof -
  from ok p g have "cell g s \<noteq> Some (tid tm)"
    by (cases g) (auto simp: timers_ok_def only_pending_def)
  with p show ?thesis
    by (auto simp: only_pending_def timers_debounce)
qed

lemma pending_fires:
  assumes "timers_ok s" and "only_pending f g tm s"
    and f: "invocation f = Some x" and g: "invocation g \<noteq> None" "g \<noteq> f"
    and t: "due tm \<le> t"
  shows "calls x (run_until s t) = calls x s @ [due tm]"
proof (rule run_until_rule
    [where P = "\<lambda>s'. (timers_ok s' \<and> only_pending f g tm s' \<and> calls x s' = calls x s) \<or>
                      ((\<forall>y \<in> set (timers s'). slot y = g) \<and> calls x s' = calls x s @ [due tm])"])
  show "(timers_ok s \<and> only_pending f g tm s \<and> calls x s = calls x s) \<or>
      ((\<forall>y \<in> set (timers s). slot y = g) \<and> calls x s = calls x s @ [due tm])"
    using assms by simp
next
  fix s' y
  assume P: "(timers_ok s' \<and> only_pending f g tm s' \<and> calls x s' = calls x s) \<or>
      ((\<forall>y \<in> set (timers s'). slot y = g) \<and> calls x s' = calls x s @ [due tm])"
    and nd: "next_due s' t = Some y"
  from nd have y: "y \<in> set (timers s')" "\<forall>z \<in> set (timers s'). due y \<le> due z"
    by (simp_all add: next_due_SomeD)
  from P show "(timers_ok (fire y s') \<and> only_pending f g tm (fire y s') \<and>
        calls x (fire y s') = calls x s) \<or>
      ((\<forall>z \<in> set (timers (fire y s')). slot z = g) \<and> calls x (fire y s') = calls x s @ [due tm])"
  proof
    assume J: "timers_ok s' \<and> only_pending f g tm s' \<and> calls x s' = calls x s"
    then have ok: "timers_ok s'" and p: "only_pending f g tm s'"
      and c: "calls x s' = calls x s" by simp_all
    show ?thesis
    proof (cases "y = tm")
      case True
      then show ?thesis using fire_self [OF ok p f] c by simp
    next
      case False
      from p have "tm \<in> set (timers s')" by (simp add: only_pending_def)
      with y have le: "due y \<le> due tm" by simp
      show ?thesis
        using fire_other [OF ok p f g y(1) False le] timers_ok_fire [OF ok y(1)] c by simp
    qed
  next
    assume K: "(\<forall>y \<in> set (timers s'). slot y = g) \<and> calls x s' = calls x s @ [due tm]"
    then have a: "\<forall>y \<in> set (timers s'). slot y = g"
      and c: "calls x s' = calls x s @ [due tm]" by simp_all
    show ?thesis
      using fire_rest [OF a g f y(1)] c by simp
  qed
next
  fix s'
  assume P: "(timers_ok s' \<and> only_pending f g tm s' \<and> calls x s' = calls x s) \<or>
      ((\<forall>y \<in> set (timers s'). slot y = g) \<and> calls x s' = calls x s @ [due tm])"
    and nd: "next_due s' t = None"
  have "\<not> only_pending f g tm s'"
  proof
    assume "only_pending f g tm s'"
    then have "tm \<in> set (timers s')" by (simp add: only_pending_def)
    with nd have "t < due tm" by (rule next_due_NoneD)
    with t show False by simp
  qed
  with P show "calls x (s'\<lparr>now := max (now s') t\<rparr>) = calls x s @ [due tm]"
    by (auto simp: calls_def)
qed

lemma timers_ok_simple:
  "timers_ok s \<Longrightarrow> timers_ok (toggle s)"
  "timers_ok s \<Longrightarrow> timers_ok (record_entry x s)"
  "timers_ok s \<Longrightarrow> timers_ok (s\<lparr>isBrowsing := v\<rparr>)"
  "timers_ok s \<Longrightarrow> timers_ok (onBrowse s)"
  "timers_ok s \<Longrightarrow> timers_ok (onEndBrowse s)"
  "timers_ok s \<Longrightarrow> timers_ok (destroy s)"
  by (erule timers_ok_frame;
      simp add: toggle_def onBrowse_def onEndBrowse_def destroy_def
        removeEventListener_def record_entry_def Let_def)+

lemma timers_ok_select: "timers_ok s \<Longrightarrow> select item s = Inr s' \<Longrightarrow> timers_ok s'"
  using select_cases [of item s s'] by (auto simp: timers_ok_simple)

lemma timers_ok_handleEvent:
  "timers_ok s \<Longrightarrow> handleEvent ev s = (b, Inr s') \<Longrightarrow> timers_ok s'"
  by (erule handleEvent_invariant [where I = timers_ok, rotated])
    (simp_all add: timers_ok_simple timers_ok_debounce timers_ok_priv)

lemma timers_ok_propagate: "timers_ok s \<Longrightarrow> timers_ok (propagate others cs ev s)"
  by (erule propagate_invariant) (rule timers_ok_handleEvent)

lemma timers_ok_Dropdown: "Dropdown opts d = Inr s \<Longrightarrow> timers_ok s"
  by (erule Dropdown_InrD) (simp add: timers_ok_def)

lemma reachable_timers_ok: "reachable s \<Longrightarrow> timers_ok s"
proof (induction rule: reachable.induct)
  case (constructed opts d s)
  then show ?case by (rule timers_ok_Dropdown)
next
  case (delivered s others ev)
  then show ?case by (simp add: dispatchEvent_def timers_ok_propagate)
next
  case (handled s ev b s')
  then show ?case by (simp add: timers_ok_handleEvent)
next
  case (called_select s item s')
  then show ?case by (simp add: timers_ok_select)
qed (simp_all add: timers_ok_run_until timers_ok_simple timers_ok_priv
    timers_ok_debounce debounced_open_def debounced_close_def)

lemma live_reachable: "live s \<Longrightarrow> reachable s"
  by (induction rule: live.induct) (auto intro: reachable.intros)

lemma listeners_fire [simp]: "listeners (fire tm s) = listeners s"
  by (cases "slot tm")
    (simp_all add: fire_def debounced_open_def priv_open_def priv_close_def record_entry_def
      Let_def)

lemma listeners_run_until [simp]: "listeners (run_until s t) = listeners s"
  by (rule run_until_rule [where P = "\<lambda>s'. listeners s' = listeners s"]) simp_all

lemma listeners_handleEvent:
  "handleEvent ev s = (b, Inr s') \<Longrightarrow> listeners s' = listeners s"
  by (erule handleEvent_invariant [where I = "\<lambda>x. listeners x = listeners s"])
    (simp_all add: toggle_def priv_open_def priv_close_def record_entry_def Let_def)

lemma listeners_propagate [simp]: "listeners (propagate others cs ev s) = listeners s"
  by (rule propagate_invariant [where I = "\<lambda>x. listeners x = listeners s"])
    (simp_all add: listeners_handleEvent)

lemma Dropdown_listens:
  assumes "Dropdown opts d = Inr s"
  shows "(Window, ''click'') \<in> set (listeners s)"
    and "(Node (menu s), ''click'') \<in> set (listeners s)"
proof -
  from assms obtain s0 where s: "s = initialize s0"
    by (elim Dropdown_InrD) simp
  show "(Window, ''click'') \<in> set (listeners s)"
    unfolding s by (rule initialize_listens)
  have "(Node (menu s0), ''click'') \<in> set (listeners (initialize s0))"
    by (rule initialize_listens)
  then show "(Node (menu s), ''click'') \<in> set (listeners s)"
    by (simp add: s)
qed

lemma live_listens_window: "live s \<Longrightarrow> (Window, ''click'') \<in> set (listeners s)"
proof (induction rule: live.induct)
  case (live_constructed opts d s)
  then show ?case by (rule Dropdown_listens)
next
  case (live_handled s ev b s')
  then show ?case by (simp add: listeners_handleEvent)
next
  case (live_select s item s')
  then show ?case using select_cases [of item s s'] by auto
qed (simp_all add: dispatchEvent_def debounced_open_def debounced_close_def toggle_def
    priv_open_def priv_close_def record_entry_def onBrowse_def onEndBrowse_def Let_def)

lemma other_slot_kept:
  assumes "timers_ok s" and "g \<noteq> f"
  shows "filter (\<lambda>t. slot t = f) (timers (debounce g d s)) = filter (\<lambda>t. slot t = f) (timers s)"
proof -
  have "\<forall>t \<in> set (timers s). slot t = f \<longrightarrow> cell g s \<noteq> Some (tid t)"
    using assms by (cases g) (auto simp: timers_ok_def)
  then have "filter (\<lambda>t. slot t = f \<and> cell g s \<noteq> Some (tid t)) (timers s)
      = filter (\<lambda>t. slot t = f) (timers s)"
    by (intro filter_cong) auto
  then show ?thesis using assms(2) by (simp add: timers_debounce conj_commute)
qed

lemma debounced_open_frame [simp]:
  "trace (debounced_open s) = trace s" "isOpened (debounced_open s) = isOpened s"
  "timeout (debounced_open s) = timeout s" "now (debounced_open s) = now s"
  by (simp_all add: debounced_open_def)

lemma burst_within_sorted: "burst_within D (x # xs) \<Longrightarrow> y \<in> set xs \<Longrightarrow> x \<le> y"
proof (induction xs arbitrary: x)
  case Nil
  then show ?case by simp
next
  case (Cons z zs)
  then show ?case by fastforce
qed

lemma burst_within_mono: "burst_within D xs \<Longrightarrow> D \<le> D' \<Longrightarrow> burst_within D' xs"
  by (induction D xs rule: burst_within.induct) auto

lemma burst_within_hd_last: "burst_within D (x # xs) \<Longrightarrow> x \<le> last (x # xs)"
  using burst_within_sorted [of D x xs "last xs"] by (cases "xs = []") auto

lemma Dropdown_example_hover:
  "Dropdown (example_options\<lparr>opt_openBy := Some ''hover''\<rparr>) example_doc = Inr example_hover"
  by (simp add: Dropdown_def example_options_def example_doc_def example_hover_def
      querySelector_def initialize_def setDebouncedMethods_def registerEventsHandlers_def
      registerToggleHandlers_def addEventListener_def expanded_def classList_contains_def
      openClass_def)

lemma el_ok_frame: "el_ok s \<Longrightarrow> doc s' = doc s \<Longrightarrow> el s' = el s \<Longrightarrow> el_ok s'"
  by (simp add: el_ok_def)

lemma el_ok_priv: "el_ok s \<Longrightarrow> el_ok (priv_open s)" "el_ok s \<Longrightarrow> el_ok (priv_close s)"
  by (auto simp: el_ok_def priv_open_def priv_close_def record_entry_def Let_def lookup_modify)

lemma el_ok_simple:
  "el_ok s \<Longrightarrow> el_ok (toggle s)"
  "el_ok s \<Longrightarrow> el_ok (record_entry x s)"
  "el_ok s \<Longrightarrow> el_ok (s\<lparr>isBrowsing := v\<rparr>)"
  "el_ok s \<Longrightarrow> el_ok (onBrowse s)"
  "el_ok s \<Longrightarrow> el_ok (onEndBrowse s)"
  "el_ok s \<Longrightarrow> el_ok (destroy s)"
  "el_ok s \<Longrightarrow> el_ok (debounce f d s)"
  by (simp_all add: toggle_def el_ok_priv)
    (simp_all add: el_ok_def onBrowse_def onEndBrowse_def destroy_def
      removeEventListener_def record_entry_def Let_def)

lemma el_ok_select: "el_ok s \<Longrightarrow> select item s = Inr s' \<Longrightarrow> el_ok s'"
  using select_cases [of item s s'] by (auto simp: el_ok_simple)

lemma el_ok_fire: "el_ok s \<Longrightarrow> el_ok (fire tm s)"
proof -
  assume a: "el_ok s"
  have b: "\<And>s'. doc s' = doc s \<Longrightarrow> el s' = el s \<Longrightarrow> el_ok s'"
    using a by (rule el_ok_frame)
  show ?thesis
    by (cases "slot tm") (simp_all add: fire_def debounced_open_def el_ok_priv el_ok_simple b)
qed

lemma el_ok_run_until: "el_ok s \<Longrightarrow> el_ok (run_until s t)"
proof (rule run_until_rule [where P = el_ok])
  fix s tm
  assume "el_ok s"
  then show "el_ok (fire tm s)" by (rule el_ok_fire)
next
  fix s
  assume "el_ok s"
  then show "el_ok (s\<lparr>now := max (now s) t\<rparr>)" by (simp add: el_ok_def)
qed

lemma el_ok_handleEvent: "el_ok s \<Longrightarrow> handleEvent ev s = (b, Inr s') \<Longrightarrow> el_ok s'"
  by (erule handleEvent_invariant [where I = el_ok, rotated])
    (simp_all add: el_ok_simple el_ok_priv)

lemma el_ok_propagate: "el_ok s \<Longrightarrow> el_ok (propagate others cs ev s)"
  by (erule propagate_invariant) (rule el_ok_handleEvent)

lemma el_ok_Dropdown: "Dropdown opts d = Inr s \<Longrightarrow> el_ok s"
  by (erule Dropdown_InrD) (simp add: el_ok_def)

lemma reachable_el_ok: "reachable s \<Longrightarrow> el_ok s"
proof (induction rule: reachable.induct)
  case (constructed opts d s)
  then show ?case by (rule el_ok_Dropdown)
next
  case (delivered s others ev)
  then show ?case by (simp add: dispatchEvent_def el_ok_propagate)
next
  case (handled s ev b s')
  then show ?case by (simp add: el_ok_handleEvent)
next
  case (called_select s item s')
  then show ?case by (simp add: el_ok_select)
qed (simp_all add: el_ok_run_until el_ok_simple el_ok_priv
    debounced_open_def debounced_close_def)

lemma Dropdown_example_first:
  "Dropdown \<lparr>opt_el = [0], opt_openBy = None, opt_wait = None\<rparr> example_two_doc
     = Inr example_first"
  by (simp add: Dropdown_def example_two_doc_def example_first_def
      querySelector_def initialize_def setDebouncedMethods_def registerEventsHandlers_def
      registerToggleHandlers_def addEventListener_def expanded_def classList_contains_def
      openClass_def)

lemma Dropdown_example_second:
  "Dropdown \<lparr>opt_el = [1], opt_openBy = None, opt_wait = None\<rparr> example_two_doc
     = Inr example_second"
  by (simp add: Dropdown_def example_two_doc_def example_second_def
      querySelector_def initialize_def setDebouncedMethods_def registerEventsHandlers_def
      registerToggleHandlers_def addEventListener_def expanded_def classList_contains_def
      openClass_def)

lemma stopped_by_second:
  "stopped_by (instance_listeners example_second) c \<lparr>type = ''click'', target = p\<rparr>
     \<longleftrightarrow> (c = Node [1, 0] \<or> c = Node [1, 1] \<or> c = Window)
          \<and> (p = [1, 0] \<or> contains [1, 1] p)"
  by (auto simp: stopped_by_def instance_listeners_def example_second_def handleEvent_def
      contains_def Let_def)

lemma earliest_last:
  "earliest (xs @ [x]) = Some x \<Longrightarrow> x \<notin> set xs \<Longrightarrow> z \<in> set xs \<Longrightarrow> due x < due z"
  by (induction xs) (auto split: option.splits if_splits)

lemma now_fire: "now (fire tm s) = max (now s) (due tm)"
  by (cases "slot tm")
    (simp_all add: fire_def debounced_open_def priv_open_def priv_close_def record_entry_def
      Let_def)

lemma timeout_fire: "timeout (fire tm s) = timeout s"
  by (cases "slot tm")
    (simp_all add: fire_def debounced_open_def priv_open_def priv_close_def record_entry_def
      Let_def)

lemma now_run_until: "now (run_until s t) = max (now s) t"
proof (rule run_until_rule
    [where P = "\<lambda>s'. now s \<le> now s' \<and> now s' \<le> max (now s) t"])
  show "now s \<le> now s \<and> now s \<le> max (now s) t" by simp
next
  fix s' tm
  assume "now s \<le> now s' \<and> now s' \<le> max (now s) t" and "next_due s' t = Some tm"
  then show "now s \<le> now (fire tm s') \<and> now (fire tm s') \<le> max (now s) t"
    using next_due_SomeD(2) [of s' t tm] by (auto simp: now_fire)
next
  fix s'
  assume "now s \<le> now s' \<and> now s' \<le> max (now s) t"
  then show "now (s'\<lparr>now := max (now s') t\<rparr>) = max (now s) t" by auto
qed

lemma timeout_run_until: "timeout (run_until s t) = timeout s"
  by (rule run_until_rule [where P = "\<lambda>s'. timeout s' = timeout s"])
    (simp_all add: timeout_fire)

lemma priv_close_flags:
  "isOpened (priv_close s) = (isOpened s \<and> isBrowsing s)"
  "isBrowsing (priv_close s) = isBrowsing s"
  by (auto simp: priv_close_def record_entry_def Let_def)

lemma fire_close:
  assumes "slot y = Close_slot"
  shows "timers (fire y s) = filter (\<lambda>t. tid t \<noteq> tid y) (timers s)"
    and "isOpened (fire y s) = (isOpened s \<and> isBrowsing s)"
    and "isBrowsing (fire y s) = isBrowsing s"
    and "calls Call_open (fire y s) = calls Call_open s"
    and "calls Cb_onOpen (fire y s) = calls Cb_onOpen s"
  using assms
  by (simp_all add: fire_def priv_close_flags calls_priv_close) (simp_all add: calls_def)

lemma fire_open:
  assumes "slot y = Open_slot"
  shows "timers (fire y s) = filter (\<lambda>t. tid t \<noteq> tid y) (timers s)"
    and "calls Call_open (fire y s) = calls Call_open s @ [max (now s) (due y)]"
    and "calls Cb_onOpen (fire y s)
           = calls Cb_onOpen s @ (if isOpened s then [] else [max (now s) (due y)])"
  using assms
  by (simp_all add: fire_def calls_priv_open) (simp_all add: calls_def)

lemma run_until_no_wrappers:
  assumes "timers_ok s" and "\<forall>x \<in> set (timers s). slot x \<noteq> Wrapper_slot"
  shows "timers_ok (run_until s t) \<and> (\<forall>x \<in> set (timers (run_until s t)). slot x \<noteq> Wrapper_slot)"
proof (rule run_until_rule
    [where P = "\<lambda>s'. timers_ok s' \<and> (\<forall>x \<in> set (timers s'). slot x \<noteq> Wrapper_slot)"])
  show "timers_ok s \<and> (\<forall>x \<in> set (timers s). slot x \<noteq> Wrapper_slot)" using assms by simp
next
  fix s' y
  assume P: "timers_ok s' \<and> (\<forall>x \<in> set (timers s'). slot x \<noteq> Wrapper_slot)"
    and nd: "next_due s' t = Some y"
  from nd have y: "y \<in> set (timers s')" by (simp add: next_due_SomeD)
  with P have "slot y \<noteq> Wrapper_slot" by simp
  then have "timers (fire y s') = filter (\<lambda>t. tid t \<noteq> tid y) (timers s')"
    by (cases "slot y") (simp_all add: fire_def)
  with P y show "timers_ok (fire y s') \<and> (\<forall>x \<in> set (timers (fire y s')). slot x \<noteq> Wrapper_slot)"
    by (simp add: timers_ok_fire)
next
  fix s'
  assume "timers_ok s' \<and> (\<forall>x \<in> set (timers s'). slot x \<noteq> Wrapper_slot)"
  then show "timers_ok (s'\<lparr>now := max (now s') t\<rparr>) \<and>
      (\<forall>x \<in> set (timers (s'\<lparr>now := max (now s') t\<rparr>)). slot x \<noteq> Wrapper_slot)"
    by (simp add: timers_ok_def)
qed

lemma armed_no_wrappers:
  assumes "armed_at d s" and "x \<in> set (timers s)"
  shows "slot x \<noteq> Wrapper_slot"
proof -
  from assms(1) have "timers s = butlast (timers s) @ [last (timers s)]"
    by (simp add: armed_at_def)
  with assms(2) have "x \<in> set (butlast (timers s)) \<or> x = last (timers s)"
    by (metis Un_iff empty_iff insert_iff list.set(1) list.set(2) set_append)
  with assms(1) show ?thesis by (auto simp: armed_at_def)
qed

lemma armed_call:
  assumes ok: "timers_ok s" and nw: "\<forall>x \<in> set (timers s). slot x \<noteq> Wrapper_slot"
  shows "armed_at (now s + delay_ms (timeout s)) (debounced_open s)"
    and "timers_ok (debounced_open s)"
    and "closed_at d (debounced_open s) = closed_at d s"
proof -
  let ?keep = "filter (\<lambda>t. open_timeout s \<noteq> Some (tid t)) (timers s)"
  let ?new = "Timer (next_id s) (now s + delay_ms (timeout s)) Open_slot"
  have tm: "timers (debounced_open s) = ?keep @ [?new]"
    by (simp add: debounced_open_def timers_debounce)
  have o: "\<And>x. x \<in> set (timers s) \<Longrightarrow> (open_timeout s = Some (tid x)) = (slot x = Open_slot)"
    using ok by (simp add: timers_ok_def)
  have k: "\<forall>x \<in> set ?keep. slot x = Close_slot"
  proof
    fix x assume "x \<in> set ?keep"
    then have x: "x \<in> set (timers s)" "open_timeout s \<noteq> Some (tid x)" by simp_all
    with o have "slot x \<noteq> Open_slot" by simp
    moreover from x nw have "slot x \<noteq> Wrapper_slot" by simp
    ultimately show "slot x = Close_slot" by (cases "slot x") auto
  qed
  show "armed_at (now s + delay_ms (timeout s)) (debounced_open s)"
    using k delay_ms_nonneg [of "timeout s"] by (simp add: armed_at_def tm)
  show "timers_ok (debounced_open s)"
    using ok by (simp add: debounced_open_def timers_ok_debounce)
  have nc: "\<And>c. c \<in> set (timers s) \<Longrightarrow> slot c = Close_slot \<Longrightarrow> open_timeout s \<noteq> Some (tid c)"
    using o by auto
  have "(\<exists>c \<in> set (?keep @ [?new]). slot c = Close_slot \<and> due c \<le> d)
      = (\<exists>c \<in> set (timers s). slot c = Close_slot \<and> due c \<le> d)"
    using nc by auto
  moreover have "isBrowsing (debounced_open s) = isBrowsing s"
    by (simp add: debounced_open_def)
  ultimately show "closed_at d (debounced_open s) = closed_at d s"
    by (simp add: closed_at_def tm)
qed

lemma fire_close_armed:
  assumes ok: "timers_ok s" and a: "armed_at d s" and y: "y \<in> set (timers s)"
    and ne: "y \<noteq> last (timers s)" and le: "due y \<le> d" and dd: "d \<le> d'"
  shows "armed_at d (fire y s)"
    and "closed_at d' (fire y s) = closed_at d' s"
    and "calls Call_open (fire y s) = calls Call_open s"
    and "calls Cb_onOpen (fire y s) = calls Cb_onOpen s"
proof -
  let ?l = "last (timers s)"
  let ?b = "butlast (timers s)"
  from a have tm: "timers s = ?b @ [?l]" by (simp add: armed_at_def)
  with y ne have yb: "y \<in> set ?b"
    by (metis Un_iff empty_iff insert_iff list.set(1) list.set(2) set_append)
  with a have sy: "slot y = Close_slot" by (simp add: armed_at_def)
  have lmem: "?l \<in> set (timers s)" using a by (simp add: armed_at_def)
  have tl: "tid ?l \<noteq> tid y"
    using tid_inj_on_timers [OF ok lmem y] ne by auto
  have "filter (\<lambda>t. tid t \<noteq> tid y) (?b @ [?l]) = filter (\<lambda>t. tid t \<noteq> tid y) ?b @ [?l]"
    using tl by simp
  then have tf: "timers (fire y s) = filter (\<lambda>t. tid t \<noteq> tid y) ?b @ [?l]"
    using tm by (simp add: fire_close(1) [OF sy])
  show "armed_at d (fire y s)"
    using a le by (auto simp: armed_at_def tf now_fire)
  show "calls Call_open (fire y s) = calls Call_open s"
    and "calls Cb_onOpen (fire y s) = calls Cb_onOpen s"
    by (simp_all add: fire_close [OF sy])
  have c: "\<And>x. x \<in> set (timers s) \<Longrightarrow> (close_timeout s = Some (tid x)) = (slot x = Close_slot)"
    using ok by (simp add: timers_ok_def)
  have none: "\<not> (\<exists>c \<in> set (timers (fire y s)). slot c = Close_slot \<and> due c \<le> d')"
  proof
    assume "\<exists>c \<in> set (timers (fire y s)). slot c = Close_slot \<and> due c \<le> d'"
    then obtain x where x: "x \<in> set (timers s)" "tid x \<noteq> tid y" "slot x = Close_slot"
      by (auto simp: fire_close(1) [OF sy])
    with c have "close_timeout s = Some (tid x)" by simp
    moreover from c y sy have "close_timeout s = Some (tid y)" by simp
    ultimately show False using x by simp
  qed
  have some: "\<exists>c \<in> set (timers s). slot c = Close_slot \<and> due c \<le> d'"
    using y sy le dd by force
  show "closed_at d' (fire y s) = closed_at d' s"
    unfolding closed_at_def using none some by (auto simp: fire_close [OF sy])
qed

lemma armed_run_before:
  assumes ok: "timers_ok s" and a: "armed_at d s" and t: "t < d" and dd: "d \<le> d'"
  shows "timers_ok (run_until s t) \<and> armed_at d (run_until s t) \<and>
         closed_at d' (run_until s t) = closed_at d' s \<and>
         calls Call_open (run_until s t) = calls Call_open s \<and>
         calls Cb_onOpen (run_until s t) = calls Cb_onOpen s"
proof (rule run_until_rule
    [where P = "\<lambda>s'. timers_ok s' \<and> armed_at d s' \<and> closed_at d' s' = closed_at d' s \<and>
        calls Call_open s' = calls Call_open s \<and> calls Cb_onOpen s' = calls Cb_onOpen s"])
  show "timers_ok s \<and> armed_at d s \<and> closed_at d' s = closed_at d' s \<and>
      calls Call_open s = calls Call_open s \<and> calls Cb_onOpen s = calls Cb_onOpen s"
    using ok a by simp
next
  fix s' y
  assume P: "timers_ok s' \<and> armed_at d s' \<and> closed_at d' s' = closed_at d' s \<and>
      calls Call_open s' = calls Call_open s \<and> calls Cb_onOpen s' = calls Cb_onOpen s"
    and nd: "next_due s' t = Some y"
  then have ok': "timers_ok s'" and a': "armed_at d s'" by simp_all
  from nd have y: "y \<in> set (timers s')" "due y \<le> t" by (simp_all add: next_due_SomeD)
  from a' have "due (last (timers s')) = d" by (simp add: armed_at_def)
  with y t have ne: "y \<noteq> last (timers s')" and le: "due y \<le> d" by auto
  show "timers_ok (fire y s') \<and> armed_at d (fire y s') \<and>
      closed_at d' (fire y s') = closed_at d' s \<and>
      calls Call_open (fire y s') = calls Call_open s \<and>
      calls Cb_onOpen (fire y s') = calls Cb_onOpen s"
    using fire_close_armed [OF ok' a' y(1) ne le dd] timers_ok_fire [OF ok' y(1)] P by simp
next
  fix s'
  assume P: "timers_ok s' \<and> armed_at d s' \<and> closed_at d' s' = closed_at d' s \<and>
      calls Call_open s' = calls Call_open s \<and> calls Cb_onOpen s' = calls Cb_onOpen s"
  let ?s = "s'\<lparr>now := max (now s') t\<rparr>"
  have "timers_ok ?s" using P by (simp add: timers_ok_def)
  moreover have "armed_at d ?s" using P t by (simp add: armed_at_def)
  moreover have "closed_at d' ?s = closed_at d' s" using P by (simp add: closed_at_def)
  moreover have "calls Call_open ?s = calls Call_open s \<and> calls Cb_onOpen ?s = calls Cb_onOpen s"
    using P by (simp add: calls_def)
  ultimately show "timers_ok ?s \<and> armed_at d ?s \<and> closed_at d' ?s = closed_at d' s \<and>
      calls Call_open ?s = calls Call_open s \<and> calls Cb_onOpen ?s = calls Cb_onOpen s"
    by simp
qed

lemma fire_newest:
  assumes ok: "timers_ok s" and a: "armed_at d s" and e: "earliest (timers s) = Some (last (timers s))"
  shows "\<forall>x \<in> set (timers (fire (last (timers s)) s)). slot x = Close_slot"
    and "calls Call_open (fire (last (timers s)) s) = calls Call_open s @ [d]"
    and "calls Cb_onOpen (fire (last (timers s)) s)
           = calls Cb_onOpen s @ (if closed_at d s then [d] else [])"
proof -
  let ?l = "last (timers s)"
  let ?b = "butlast (timers s)"
  from a have tm: "timers s = ?b @ [?l]" and sl: "slot ?l = Open_slot" and dl: "due ?l = d"
    and n: "max (now s) d = d" and cb: "\<forall>x \<in> set ?b. slot x = Close_slot"
    by (simp_all add: armed_at_def)
  have "distinct (timers s)" using ok by (simp add: timers_ok_def distinct_map)
  then have "distinct (?b @ [?l])" using tm by simp
  then have nin: "?l \<notin> set ?b" by simp
  have later: "\<And>z. z \<in> set ?b \<Longrightarrow> d < due z"
    using earliest_last [of ?b ?l] e tm nin dl by simp
  have lmem: "?l \<in> set (timers s)" using a by (simp add: armed_at_def)
  have "\<And>x. x \<in> set ?b \<Longrightarrow> tid x \<noteq> tid ?l"
  proof
    fix x assume x: "x \<in> set ?b" and "tid x = tid ?l"
    from x tm have "x \<in> set (timers s)" by (metis Un_iff set_append)
    with \<open>tid x = tid ?l\<close> have "x = ?l" using tid_inj_on_timers [OF ok _ lmem] by blast
    with x nin show False by simp
  qed
  then have "filter (\<lambda>t. tid t \<noteq> tid ?l) ?b = ?b" by (simp add: filter_id_conv)
  then have "filter (\<lambda>t. tid t \<noteq> tid ?l) (?b @ [?l]) = ?b" by simp
  then have tf: "timers (fire ?l s) = ?b"
    using tm by (simp add: fire_open(1) [OF sl])
  show "\<forall>x \<in> set (timers (fire ?l s)). slot x = Close_slot"
    using cb by (simp add: tf)
  show "calls Call_open (fire ?l s) = calls Call_open s @ [d]"
    using n by (simp add: fire_open(2) [OF sl] dl)
  have "\<not> (\<exists>c \<in> set (timers s). slot c = Close_slot \<and> due c \<le> d)"
  proof
    assume "\<exists>c \<in> set (timers s). slot c = Close_slot \<and> due c \<le> d"
    then obtain c where c: "c \<in> set (timers s)" "slot c = Close_slot" "due c \<le> d" by blast
    with sl have "c \<noteq> ?l" by auto
    with c(1) tm have "c \<in> set ?b"
      by (metis Un_iff empty_iff insert_iff list.set(1) list.set(2) set_append)
    with later c(3) show False by force
  qed
  then have "closed_at d s = (\<not> isOpened s)" unfolding closed_at_def by blast
  then show "calls Cb_onOpen (fire ?l s)
           = calls Cb_onOpen s @ (if closed_at d s then [d] else [])"
    using n by (simp add: fire_open(3) [OF sl] dl)
qed

lemma fire_close_rest:
  assumes "\<forall>x \<in> set (timers s). slot x = Close_slot" and "y \<in> set (timers s)"
  shows "\<forall>x \<in> set (timers (fire y s)). slot x = Close_slot"
    and "calls Call_open (fire y s) = calls Call_open s"
    and "calls Cb_onOpen (fire y s) = calls Cb_onOpen s"
proof -
  from assms have sy: "slot y = Close_slot" by simp
  show "\<forall>x \<in> set (timers (fire y s)). slot x = Close_slot"
    using assms(1) by (simp add: fire_close(1) [OF sy])
  show "calls Call_open (fire y s) = calls Call_open s"
    and "calls Cb_onOpen (fire y s) = calls Cb_onOpen s"
    by (simp_all add: fire_close [OF sy])
qed

lemma armed_run_after:
  assumes ok: "timers_ok s" and a: "armed_at d s" and t: "d \<le> t"
  shows "calls Call_open (run_until s t) = calls Call_open s @ [d] \<and>
         calls Cb_onOpen (run_until s t)
           = calls Cb_onOpen s @ (if closed_at d s then [d] else [])"
proof (rule run_until_rule
    [where P = "\<lambda>s'. (timers_ok s' \<and> armed_at d s' \<and> closed_at d s' = closed_at d s \<and>
          calls Call_open s' = calls Call_open s \<and> calls Cb_onOpen s' = calls Cb_onOpen s) \<or>
        ((\<forall>x \<in> set (timers s'). slot x = Close_slot) \<and>
          calls Call_open s' = calls Call_open s @ [d] \<and>
          calls Cb_onOpen s' = calls Cb_onOpen s @ (if closed_at d s then [d] else []))"])
  show "(timers_ok s \<and> armed_at d s \<and> closed_at d s = closed_at d s \<and>
        calls Call_open s = calls Call_open s \<and> calls Cb_onOpen s = calls Cb_onOpen s) \<or>
      ((\<forall>x \<in> set (timers s). slot x = Close_slot) \<and>
        calls Call_open s = calls Call_open s @ [d] \<and>
        calls Cb_onOpen s = calls Cb_onOpen s @ (if closed_at d s then [d] else []))"
    using ok a by simp
next
  fix s' y
  assume P: "(timers_ok s' \<and> armed_at d s' \<and> closed_at d s' = closed_at d s \<and>
        calls Call_open s' = calls Call_open s \<and> calls Cb_onOpen s' = calls Cb_onOpen s) \<or>
      ((\<forall>x \<in> set (timers s'). slot x = Close_slot) \<and>
        calls Call_open s' = calls Call_open s @ [d] \<and>
        calls Cb_onOpen s' = calls Cb_onOpen s @ (if closed_at d s then [d] else []))"
    and nd: "next_due s' t = Some y"
  from nd have y: "y \<in> set (timers s')" "\<forall>z \<in> set (timers s'). due y \<le> due z"
    by (simp_all add: next_due_SomeD)
  from nd have e: "earliest (timers s') = Some y"
    by (auto simp: next_due_def split: option.splits if_splits)
  from P show "(timers_ok (fire y s') \<and> armed_at d (fire y s') \<and>
        closed_at d (fire y s') = closed_at d s \<and>
        calls Call_open (fire y s') = calls Call_open s \<and>
        calls Cb_onOpen (fire y s') = calls Cb_onOpen s) \<or>
      ((\<forall>x \<in> set (timers (fire y s')). slot x = Close_slot) \<and>
        calls Call_open (fire y s') = calls Call_open s @ [d] \<and>
        calls Cb_onOpen (fire y s') = calls Cb_onOpen s @ (if closed_at d s then [d] else []))"
  proof
    assume J: "timers_ok s' \<and> armed_at d s' \<and> closed_at d s' = closed_at d s \<and>
        calls Call_open s' = calls Call_open s \<and> calls Cb_onOpen s' = calls Cb_onOpen s"
    then have ok': "timers_ok s'" and a': "armed_at d s'" by simp_all
    show ?thesis
    proof (cases "y = last (timers s')")
      case True
      with e have "earliest (timers s') = Some (last (timers s'))" by simp
      from fire_newest [OF ok' a' this] J True show ?thesis by simp
    next
      case False
      from a' have "last (timers s') \<in> set (timers s')" "due (last (timers s')) = d"
        by (simp_all add: armed_at_def)
      with y have le: "due y \<le> d" by force
      from fire_close_armed [OF ok' a' y(1) False le order_refl] timers_ok_fire [OF ok' y(1)] J
      show ?thesis by simp
    qed
  next
    assume K: "(\<forall>x \<in> set (timers s'). slot x = Close_slot) \<and>
        calls Call_open s' = calls Call_open s @ [d] \<and>
        calls Cb_onOpen s' = calls Cb_onOpen s @ (if closed_at d s then [d] else [])"
    then have c: "\<forall>x \<in> set (timers s'). slot x = Close_slot" by simp
    from fire_close_rest [OF c y(1)] K show ?thesis by simp
  qed
next
  fix s'
  assume P: "(timers_ok s' \<and> armed_at d s' \<and> closed_at d s' = closed_at d s \<and>
        calls Call_open s' = calls Call_open s \<and> calls Cb_onOpen s' = calls Cb_onOpen s) \<or>
      ((\<forall>x \<in> set (timers s'). slot x = Close_slot) \<and>
        calls Call_open s' = calls Call_open s @ [d] \<and>
        calls Cb_onOpen s' = calls Cb_onOpen s @ (if closed_at d s then [d] else []))"
    and nd: "next_due s' t = None"
  have "\<not> armed_at d s'"
  proof
    assume a': "armed_at d s'"
    then have "last (timers s') \<in> set (timers s')" "due (last (timers s')) = d"
      by (simp_all add: armed_at_def)
    with next_due_NoneD [OF nd] t show False by force
  qed
  with P show "calls Call_open (s'\<lparr>now := max (now s') t\<rparr>) = calls Call_open s @ [d] \<and>
      calls Cb_onOpen (s'\<lparr>now := max (now s') t\<rparr>)
        = calls Cb_onOpen s @ (if closed_at d s then [d] else [])"
    by (auto simp: calls_def)
qed

lemma open_calls_armed:
  assumes "timers_ok s" and "armed_at (now s + D) s" and "delay_ms (timeout s) = D"
    and "burst_within D (now s # ts)" and "last (now s # ts) + D \<le> d'"
  shows "timers_ok (open_calls ts s) \<and> armed_at (last (now s # ts) + D) (open_calls ts s) \<and>
         closed_at d' (open_calls ts s) = closed_at d' s \<and>
         calls Call_open (open_calls ts s) = calls Call_open s \<and>
         calls Cb_onOpen (open_calls ts s) = calls Cb_onOpen s"
  using assms
proof (induction ts arbitrary: s)
  case Nil
  then show ?case by simp
next
  case (Cons t ts)
  from Cons.prems(4) have t: "now s \<le> t" "t - now s < D" and b: "burst_within D (t # ts)"
    by simp_all
  from Cons.prems(4) have "now s \<le> last (now s # t # ts)" by (rule burst_within_hd_last)
  with Cons.prems(5) have dd: "now s + D \<le> d'" by simp
  from t have lt: "t < now s + D" by simp
  let ?s1 = "run_until s t"
  have r: "timers_ok ?s1" "armed_at (now s + D) ?s1" "closed_at d' ?s1 = closed_at d' s"
    "calls Call_open ?s1 = calls Call_open s" "calls Cb_onOpen ?s1 = calls Cb_onOpen s"
    using armed_run_before [OF Cons.prems(1,2) lt dd] by simp_all
  have n1: "now ?s1 = t" "timeout ?s1 = timeout s"
    using t by (simp_all add: now_run_until timeout_run_until)
  have nw: "\<forall>x \<in> set (timers ?s1). slot x \<noteq> Wrapper_slot"
    using armed_no_wrappers [OF r(2)] by blast
  let ?s2 = "debounced_open ?s1"
  have c: "armed_at (now ?s2 + D) ?s2" "timers_ok ?s2" "closed_at d' ?s2 = closed_at d' ?s1"
    using armed_call [OF r(1) nw] n1 Cons.prems(3) by simp_all
  have n2: "now ?s2 = t" "delay_ms (timeout ?s2) = D"
    using n1 Cons.prems(3) by simp_all
  have L: "last (now ?s2 # ts) = last (now s # t # ts)" using n2(1) by simp
  have co: "calls Call_open ?s2 = calls Call_open ?s1" "calls Cb_onOpen ?s2 = calls Cb_onOpen ?s1"
    by (simp_all add: debounced_open_def calls_debounce)
  have ih: "timers_ok (open_calls ts ?s2) \<and>
      armed_at (last (now ?s2 # ts) + D) (open_calls ts ?s2) \<and>
      closed_at d' (open_calls ts ?s2) = closed_at d' ?s2 \<and>
      calls Call_open (open_calls ts ?s2) = calls Call_open ?s2 \<and>
      calls Cb_onOpen (open_calls ts ?s2) = calls Cb_onOpen ?s2"
    using c n2 b Cons.prems(5) by (intro Cons.IH) simp_all
  have oc: "open_calls (t # ts) s = open_calls ts ?s2" by simp
  show ?case unfolding oc using ih [unfolded L] r(3-5) c(3) co by (simp del: last.simps)
qed

lemma open_burst:
  assumes ok: "timers_ok s" and nw: "\<forall>x \<in> set (timers s). slot x \<noteq> Wrapper_slot"
    and ne: "ts \<noteq> []" and h: "now s \<le> hd ts"
    and b: "burst_within (delay_ms (timeout s)) ts"
  shows "calls Call_open (run_until (open_calls ts s) t)
           = calls Call_open (run_until s (hd ts)) @
             (if last ts + delay_ms (timeout s) \<le> t then [last ts + delay_ms (timeout s)] else [])"
    and "calls Cb_onOpen (run_until (open_calls ts s) t)
           = calls Cb_onOpen (run_until s (hd ts)) @
             (if last ts + delay_ms (timeout s) \<le> t \<and>
                 closed_at (last ts + delay_ms (timeout s)) (run_until s (hd ts))
              then [last ts + delay_ms (timeout s)] else [])"
proof -
  from ne obtain u us where ts: "ts = u # us" by (cases ts) auto
  let ?D = "delay_ms (timeout s)"
  let ?d = "last ts + ?D"
  let ?s0 = "run_until s u"
  let ?s1 = "debounced_open ?s0"
  let ?s2 = "open_calls us ?s1"
  have r0: "timers_ok ?s0" "\<forall>x \<in> set (timers ?s0). slot x \<noteq> Wrapper_slot"
    using run_until_no_wrappers [OF ok nw] by simp_all
  have n0: "now ?s0 = u" "timeout ?s0 = timeout s"
    using h ts by (simp_all add: now_run_until timeout_run_until)
  have a1: "armed_at (now ?s1 + ?D) ?s1" "timers_ok ?s1" "closed_at ?d ?s1 = closed_at ?d ?s0"
    using armed_call [OF r0] n0 by simp_all
  have n1: "now ?s1 = u" "delay_ms (timeout ?s1) = ?D" using n0 by simp_all
  have c1: "calls Call_open ?s1 = calls Call_open ?s0" "calls Cb_onOpen ?s1 = calls Cb_onOpen ?s0"
    by (simp_all add: debounced_open_def calls_debounce)
  have b1: "burst_within ?D (now ?s1 # us)" using b ts n1(1) by simp
  have l1: "last (now ?s1 # us) = last ts" using ts n1(1) by simp
  have le: "last (now ?s1 # us) + ?D \<le> ?d" using l1 by simp
  have s2: "open_calls ts s = ?s2" by (simp add: ts)
  have r2: "timers_ok ?s2" "armed_at ?d ?s2" "closed_at ?d ?s2 = closed_at ?d ?s0"
    "calls Call_open ?s2 = calls Call_open ?s0" "calls Cb_onOpen ?s2 = calls Cb_onOpen ?s0"
    using open_calls_armed [OF a1(2) a1(1) n1(2) b1 le] a1(3) c1 unfolding l1 by simp_all
  have hd: "hd ts = u" by (simp add: ts)
  have before: "calls Call_open (run_until ?s2 t) = calls Call_open ?s0"
    "calls Cb_onOpen (run_until ?s2 t) = calls Cb_onOpen ?s0" if "\<not> ?d \<le> t"
  proof -
    from that have "t < ?d" by simp
    from armed_run_before [OF r2(1,2) this order_refl]
    have "calls Call_open (run_until ?s2 t) = calls Call_open ?s2"
      and "calls Cb_onOpen (run_until ?s2 t) = calls Cb_onOpen ?s2" by blast+
    then show "calls Call_open (run_until ?s2 t) = calls Call_open ?s0"
      and "calls Cb_onOpen (run_until ?s2 t) = calls Cb_onOpen ?s0"
      by (simp_all only: r2(4,5))
  qed
  have after: "calls Call_open (run_until ?s2 t) = calls Call_open ?s0 @ [?d]"
    "calls Cb_onOpen (run_until ?s2 t)
       = calls Cb_onOpen ?s0 @ (if closed_at ?d ?s0 then [?d] else [])" if "?d \<le> t"
  proof -
    from armed_run_after [OF r2(1,2) that]
    have "calls Call_open (run_until ?s2 t) = calls Call_open ?s2 @ [?d]"
      and "calls Cb_onOpen (run_until ?s2 t)
             = calls Cb_onOpen ?s2 @ (if closed_at ?d ?s2 then [?d] else [])" by blast+
    then show "calls Call_open (run_until ?s2 t) = calls Call_open ?s0 @ [?d]"
      and "calls Cb_onOpen (run_until ?s2 t)
             = calls Cb_onOpen ?s0 @ (if closed_at ?d ?s0 then [?d] else [])"
      by (simp_all only: r2(3,4,5))
  qed
  show "calls Call_open (run_until (open_calls ts s) t)
           = calls Call_open (run_until s (hd ts)) @ (if ?d \<le> t then [?d] else [])"
    unfolding s2 hd using before(1) after(1) by (cases "?d \<le> t") simp_all
  show "calls Cb_onOpen (run_until (open_calls ts s) t)
           = calls Cb_onOpen (run_until s (hd ts)) @
             (if ?d \<le> t \<and> closed_at ?d (run_until s (hd ts)) then [?d] else [])"
    unfolding s2 hd using before(2) after(2)
    by (cases "?d \<le> t") simp_all
qed

lemma burst_within_delay:
  assumes "burst_within T ts" and "- 2147483648 \<le> T" and "T < 2147483648"
  shows "burst_within (delay_ms T) ts"
proof (rule burst_within_mono [of T])
  show "burst_within T ts" by (rule assms(1))
  show "T \<le> delay_ms T" using assms(2,3) by (simp add: delay_ms_id)
qed

lemma example_pending_close:
  "timers_ok (debounced_close (toggle example_state))"
  "timers (debounced_close (toggle example_state)) = [Timer 1 400 Close_slot]"
  "now (debounced_close (toggle example_state)) = 0"
  "timeout (debounced_close (toggle example_state)) = 400"
  "isOpened (debounced_close (toggle example_state))"
  "\<not> isBrowsing (debounced_close (toggle example_state))"
  "trace (debounced_close (toggle example_state)) = [(0, Call_open), (0, Cb_onOpen)]"
  by (simp_all add: timers_ok_def debounced_close_def debounce_eq toggle_def priv_open_def
      record_entry_def example_state_def Let_def delay_ms_def to_long_def)

lemma pending_wrapper_calls_open:
  "calls Call_open (run_until (open_calls [300]
      (dispatchEvent [] \<lparr>type = ''mouseover'', target = [1, 0]\<rparr> example_hover)) 700) = [] \<and>
   calls Call_open (run_until (open_calls [300]
      (dispatchEvent [] \<lparr>type = ''mouseover'', target = [1, 0]\<rparr> example_hover)) 800) = [800]"
proof -
  have b: "bubble [Suc 0, 0] = [Node [Suc 0, 0], Node [Suc 0], Node [], Window]"
    by (simp add: bubble.simps)
  have d: "dispatchEvent [] \<lparr>type = ''mouseover'', target = [1, 0]\<rparr> example_hover
      = example_hover\<lparr>timers := [Timer 1 400 Wrapper_slot], next_id := 2\<rparr>"
    by (simp add: dispatchEvent_def b stopped_by_def handleEvent_def contains_def debounce_eq
        delay_ms_def to_long_def example_hover_def Let_def)
  show ?thesis
    unfolding d
    by (simp add: run_until.simps next_due_def fire_def debounced_open_def debounce_eq
        delay_ms_def to_long_def priv_open_def record_entry_def example_hover_def Let_def
        calls_def)
qed

section \<open>The claims\<close>

text \<open>
  C1. \<^verbatim>\<open>toggle()\<close> on a closed widget is \<^verbatim>\<open>_open()\<close>: in the state it returns the widget
  is opened, \<^verbatim>\<open>onOpen\<close> has been called and the root (an element of the document in
  every reachable state, \<open>reachable_el_ok\<close>) carries the marker. On an opened
  widget it is \<^verbatim>\<open>_close()\<close>: the widget is closed in the state it returns unless
  \<open>isBrowsing\<close> is true, and then nothing changes. In every case no timer is queued or
  dropped and the clock has not moved.
\<close>

theorem toggle_immediate:
  "(\<not> isOpened s \<longrightarrow>
      priv_open s = toggle s \<and> isOpened (toggle s) \<and>
      (lookup (doc s) (el s) \<noteq> None \<longrightarrow> expanded (toggle s)) \<and>
      trace (toggle s) = trace s @ [(now s, Call_open), (now s, Cb_onOpen)]) \<and>
   (isOpened s \<and> \<not> isBrowsing s \<longrightarrow>
      priv_close s = toggle s \<and> \<not> isOpened (toggle s) \<and> \<not> expanded (toggle s) \<and>
      trace (toggle s) = trace s @ [(now s, Call_close), (now s, Cb_onClose)]) \<and>
   (isOpened s \<and> isBrowsing s \<longrightarrow>
      priv_close s = toggle s \<and> isOpened (toggle s) \<and>
      expanded (toggle s) = expanded s \<and> callbacks (toggle s) = callbacks s) \<and>
   timers (toggle s) = timers s \<and> now (toggle s) = now s \<and>
   open_timeout (toggle s) = open_timeout s \<and> close_timeout (toggle s) = close_timeout s"
proof -
  have "\<not> isOpened s \<Longrightarrow> priv_open s = toggle s"
    and "isOpened s \<Longrightarrow> priv_close s = toggle s"
    by (simp_all add: toggle_def)
  moreover have "timers (toggle s) = timers s \<and> now (toggle s) = now s \<and>
      open_timeout (toggle s) = open_timeout s \<and> close_timeout (toggle s) = close_timeout s"
    by (simp add: toggle_def priv_open_def priv_close_def record_entry_def Let_def)
  ultimately show ?thesis
    using priv_open_closed [of s] priv_close_opened [of s] priv_close_browsing [of s]
    by (auto simp: toggle_def)
qed

theorem toggle_immediate_witness:
  "\<not> isOpened example_state \<and> lookup (doc example_state) (el example_state) \<noteq> None \<and>
   isOpened (toggle example_state) \<and> expanded (toggle example_state) \<and>
   trace (toggle example_state) = [(0, Call_open), (0, Cb_onOpen)] \<and>
   \<not> isBrowsing (toggle example_state) \<and>
   \<not> isOpened (toggle (toggle example_state)) \<and>
   \<not> expanded (toggle (toggle example_state)) \<and>
   callbacks (toggle (toggle example_state)) = [Cb_onOpen, Cb_onClose] \<and>
   isOpened (onBrowse (toggle example_state)) \<and> isBrowsing (onBrowse (toggle example_state)) \<and>
   isOpened (toggle (onBrowse (toggle example_state))) \<and>
   callbacks (toggle (onBrowse (toggle example_state))) = [Cb_onOpen]"
proof -
  have a: "\<not> isOpened example_state"
    and b: "lookup (doc example_state) (el example_state) \<noteq> None"
    and t0: "trace example_state = []" "now example_state = 0"
    by (simp_all add: example_state_def example_doc_def)
  have c: "\<not> isBrowsing (toggle example_state)"
    by (simp add: toggle_def priv_open_def record_entry_def example_state_def)
  have e: "isOpened (toggle example_state)" "expanded (toggle example_state)"
    "trace (toggle example_state) = [(0, Call_open), (0, Cb_onOpen)]"
    "now (toggle example_state) = 0"
    using toggle_immediate [of example_state] a b t0 by simp_all
  have f: "\<not> isOpened (toggle (toggle example_state))"
    "\<not> expanded (toggle (toggle example_state))"
    "callbacks (toggle (toggle example_state)) = [Cb_onOpen, Cb_onClose]"
    using toggle_immediate [of "toggle example_state"] c e
    by (simp_all add: callbacks_def)
  have g: "isOpened (onBrowse (toggle example_state))"
    "isBrowsing (onBrowse (toggle example_state))"
    "callbacks (onBrowse (toggle example_state)) = [Cb_onOpen]"
    using e by (simp_all add: onBrowse_def callbacks_def)
  have h: "isOpened (toggle (onBrowse (toggle example_state)))"
    "callbacks (toggle (onBrowse (toggle example_state))) = [Cb_onOpen]"
    using toggle_immediate [of "onBrowse (toggle example_state)"] g by simp_all
  show ?thesis
    using a b c e f g h by simp
qed




text \<open>
  C3. While \<open>isBrowsing\<close> is true, any number \<open>n\<close> of calls of \<^verbatim>\<open>_close()\<close> leaves
  \<open>isOpened\<close> and the marker as they were and calls \<^verbatim>\<open>onClose\<close> not once: all that
  changes is the count of invocations.
\<close>

theorem browse_suppression:
  assumes "isBrowsing s"
  shows "(priv_close ^^ n) s = s\<lparr>trace := trace s @ replicate n (now s, Call_close)\<rparr> \<and>
         isOpened ((priv_close ^^ n) s) = isOpened s \<and>
         expanded ((priv_close ^^ n) s) = expanded s \<and>
         callbacks ((priv_close ^^ n) s) = callbacks s"
proof -
  have eq: "(priv_close ^^ n) s = s\<lparr>trace := trace s @ replicate n (now s, Call_close)\<rparr>"
  proof (induction n)
    case 0
    show ?case by simp
  next
    case (Suc n)
    then show ?case using assms
      by (simp add: priv_close_browsing record_entry_def replicate_append_same)
  qed
  have "isOpened ((priv_close ^^ n) s) = isOpened s" by (simp add: eq)
  moreover have "expanded ((priv_close ^^ n) s) = expanded s" by (simp add: eq expanded_def)
  moreover have "callbacks ((priv_close ^^ n) s) = callbacks s" by (simp add: eq callbacks_def)
  ultimately show ?thesis using eq by simp
qed

theorem browse_suppression_witness:
  "isBrowsing (example_state\<lparr>isOpened := True, isBrowsing := True\<rparr>) \<and>
   isOpened ((priv_close ^^ 3) (example_state\<lparr>isOpened := True, isBrowsing := True\<rparr>)) \<and>
   callbacks ((priv_close ^^ 3) (example_state\<lparr>isOpened := True, isBrowsing := True\<rparr>)) = []"
  using browse_suppression [of "example_state\<lparr>isOpened := True, isBrowsing := True\<rparr>" 3]
  by (simp add: example_state_def callbacks_def)

text \<open>
  C4 says that \<^verbatim>\<open>select(item)\<close> never calls \<^verbatim>\<open>onSelect\<close> for an item that carries the
  disabled marker. The second item of the example menu carries the attribute
  \<^verbatim>\<open>disabled\<close> with no value. \<^verbatim>\<open>getAttribute\<close> gives the empty string for it, which
  is falsy, so \<^verbatim>\<open>select\<close> calls \<^verbatim>\<open>onSelect\<close> for this disabled item. (For an item
  without the attribute \<^verbatim>\<open>onSelect\<close> is called once, and for a value that is not empty
  it is not called: \<open>select_enabled\<close>, \<open>select_disabled_value\<close>.)
\<close>

theorem select_disabled_without_value:
  "lookup (doc example_state) [1, 1, 1] = Some (Element ''li'' [] [(''disabled'', [])] []) \<and>
   hasAttribute ''disabled'' (Element ''li'' [] [(''disabled'', [])] []) \<and>
   select [1, 1, 1] example_state = Inr (record_entry (Cb_onSelect [1, 1, 1]) example_state) \<and>
   callbacks (record_entry (Cb_onSelect [1, 1, 1]) example_state) = [Cb_onSelect [1, 1, 1]]"
  by (simp add: example_state_def example_doc_def hasAttribute_def getAttribute_def
      select_def record_entry_def callbacks_def)

text \<open>
  C5 as stated fails on a page with two widgets. The first widget has been opened by
  \<^verbatim>\<open>toggle()\<close>; a click on the trigger of the second widget is a click whose target is
  neither the trigger nor the menu of the first nor inside that menu. The second
  widget's \<^verbatim>\<open>handleEvent\<close> stops the propagation at its trigger, the click never
  reaches \<^verbatim>\<open>window\<close>, and the first widget stays opened: \<^verbatim>\<open>onClose\<close> is not called.
  Nor does a widget close that is opened when \<^verbatim>\<open>destroy()\<close> is called: it listens no
  more, and a click on the paragraph leaves it opened.
\<close>

theorem outside_click_other_widget_counterexample:
  "Dropdown \<lparr>opt_el = [0], opt_openBy = None, opt_wait = None\<rparr> example_two_doc
     = Inr example_first \<and>
   Dropdown \<lparr>opt_el = [1], opt_openBy = None, opt_wait = None\<rparr> example_two_doc
     = Inr example_second \<and>
   isOpened (toggle example_first) \<and> \<not> isBrowsing (toggle example_first) \<and>
   [1, 0] \<noteq> trigger (toggle example_first) \<and> [1, 0] \<noteq> menu (toggle example_first) \<and>
   \<not> contains (menu (toggle example_first)) [1, 0] \<and>
   isOpened (dispatchEvent (instance_listeners example_second)
               \<lparr>type = ''click'', target = [1, 0]\<rparr> (toggle example_first)) \<and>
   callbacks (dispatchEvent (instance_listeners example_second)
               \<lparr>type = ''click'', target = [1, 0]\<rparr> (toggle example_first)) = [Cb_onOpen] \<and>
   isOpened (destroy (toggle example_first)) \<and> \<not> isBrowsing (destroy (toggle example_first)) \<and>
   [2] \<noteq> trigger (destroy (toggle example_first)) \<and>
   [2] \<noteq> menu (destroy (toggle example_first)) \<and>
   \<not> contains (menu (destroy (toggle example_first))) [2] \<and>
   isOpened (dispatchEvent [] \<lparr>type = ''click'', target = [2]\<rparr>
               (destroy (toggle example_first))) \<and>
   callbacks (dispatchEvent [] \<lparr>type = ''click'', target = [2]\<rparr>
               (destroy (toggle example_first))) = [Cb_onOpen]"
proof -
  let ?s = "toggle example_first"
  have a: "isOpened ?s" "\<not> isBrowsing ?s" "trigger ?s = [0, 0]" "menu ?s = [0, 1]"
    "callbacks ?s = [Cb_onOpen]" "(Node [1, 0], ''click'') \<notin> set (listeners ?s)"
    by (simp_all add: toggle_def priv_open_def record_entry_def example_first_def callbacks_def)
  have b: "bubble [Suc 0, 0] = [Node [Suc 0, 0], Node [Suc 0], Node [], Window]"
    by (simp add: bubble.simps)
  have c: "dispatchEvent (instance_listeners example_second)
      \<lparr>type = ''click'', target = [1, 0]\<rparr> ?s = ?s"
    using a(6) by (simp add: dispatchEvent_def b stopped_by_second)
  let ?d = "destroy ?s"
  have d: "isOpened ?d" "\<not> isBrowsing ?d" "trigger ?d = [0, 0]" "menu ?d = [0, 1]"
    "callbacks ?d = [Cb_onOpen]" "listeners ?d = []"
    by (simp_all add: destroy_def removeEventListener_def toggle_def priv_open_def
        record_entry_def example_first_def callbacks_def)
  have e: "bubble [2] = [Node [2], Node [], Window]"
    by (simp add: bubble.simps)
  have f: "dispatchEvent [] \<lparr>type = ''click'', target = [2]\<rparr> ?d = ?d"
    by (simp add: dispatchEvent_def e d(6) stopped_by_def)
  show ?thesis unfolding c f using a d Dropdown_example_first Dropdown_example_second
    by (simp add: contains_def)
qed

text \<open>
  C5, amended. The widget has been constructed and not destroyed (\<open>live\<close>), so its
  listener on \<^verbatim>\<open>window\<close> is registered (\<open>live_listens_window\<close>); it is opened and not
  browsing. A click whose target is neither the trigger nor the menu nor inside the
  menu, and whose propagation no listener of other code (\<open>others\<close>, such as a second
  widget) stops on the way up to \<^verbatim>\<open>window\<close>: \<^verbatim>\<open>handleEvent\<close> calls \<^verbatim>\<open>_close()\<close>
  directly and does not stop the propagation, and once the browser has delivered the
  click the widget is closed, the marker is off the root, \<^verbatim>\<open>onClose\<close> was called exactly
  once, and no timer was queued. The click may reach the widget through several
  listeners; each further delivery is a \<^verbatim>\<open>_close()\<close> that returns at its guard.
\<close>

theorem outside_click_closes:
  assumes "live s" and "type ev = ''click''" and "target ev \<noteq> trigger s"
    and "target ev \<noteq> menu s" and "\<not> contains (menu s) (target ev)"
    and "isOpened s" and "\<not> isBrowsing s"
    and "\<forall>c \<in> set (bubble (target ev)). c \<noteq> Window \<longrightarrow> \<not> stopped_by others c ev"
  shows "handleEvent ev s = (False, Inr (priv_close s)) \<and>
         (\<exists>k. dispatchEvent others ev s
            = (priv_close s)\<lparr>trace := trace s @ [(now s, Call_close), (now s, Cb_onClose)]
                                   @ replicate k (now s, Call_close)\<rparr>) \<and>
         \<not> isOpened (priv_close s) \<and> \<not> expanded (priv_close s) \<and>
         callbacks (priv_close s) = callbacks s @ [Cb_onClose] \<and>
         timers (priv_close s) = timers s \<and>
         \<not> isOpened (dispatchEvent others ev s) \<and> \<not> expanded (dispatchEvent others ev s) \<and>
         callbacks (dispatchEvent others ev s) = callbacks s @ [Cb_onClose] \<and>
         timers (dispatchEvent others ev s) = timers s \<and> now (dispatchEvent others ev s) = now s"
proof -
  let ?c = "priv_close s"
  have w: "(Window, ''click'') \<in> set (listeners s)"
    using assms(1) by (rule live_listens_window)
  have "\<exists>k. dispatchEvent others ev s
      = ?c\<lparr>trace := trace ?c @ replicate k (now s, Call_close)\<rparr>"
    unfolding dispatchEvent_def using assms(2-8) w Window_in_bubble
    by (intro propagate_opened) simp_all
  then obtain k where
    d: "dispatchEvent others ev s = ?c\<lparr>trace := trace ?c @ replicate k (now s, Call_close)\<rparr>" ..
  have t: "trace ?c = trace s @ [(now s, Call_close), (now s, Cb_onClose)]"
    and o: "\<not> isOpened ?c" and x: "\<not> expanded ?c"
    using assms by (simp_all add: priv_close_opened)
  have "handleEvent ev s = (False, Inr ?c)"
    using assms by (simp add: handleEvent_outside_click)
  moreover have "\<exists>k. dispatchEvent others ev s
      = ?c\<lparr>trace := trace s @ [(now s, Call_close), (now s, Cb_onClose)]
                       @ replicate k (now s, Call_close)\<rparr>"
    using d t by auto
  moreover have "callbacks ?c = callbacks s @ [Cb_onClose]"
    by (simp add: t callbacks_def)
  moreover have "\<not> isOpened (dispatchEvent others ev s)" using o by (simp add: d)
  moreover have "\<not> expanded (dispatchEvent others ev s)" using x by (simp add: d expanded_def)
  moreover have "callbacks (dispatchEvent others ev s) = callbacks s @ [Cb_onClose]"
    by (simp add: d t callbacks_def)
  moreover have "timers (dispatchEvent others ev s) = timers s \<and>
      now (dispatchEvent others ev s) = now s"
    by (simp add: d)
  ultimately show ?thesis using o x by simp
qed

theorem outside_click_closes_witness:
  "live (toggle example_first) \<and>
   isOpened (toggle example_first) \<and> \<not> isBrowsing (toggle example_first) \<and>
   [2] \<noteq> trigger (toggle example_first) \<and> [2] \<noteq> menu (toggle example_first) \<and>
   \<not> contains (menu (toggle example_first)) [2] \<and>
   bubble [2] = [Node [2], Node [], Window] \<and>
   \<not> stopped_by (instance_listeners example_second) (Node [2])
       \<lparr>type = ''click'', target = [2]\<rparr> \<and>
   \<not> stopped_by (instance_listeners example_second) (Node [])
       \<lparr>type = ''click'', target = [2]\<rparr> \<and>
   \<not> isOpened (dispatchEvent (instance_listeners example_second)
                 \<lparr>type = ''click'', target = [2]\<rparr> (toggle example_first)) \<and>
   callbacks (dispatchEvent (instance_listeners example_second)
                 \<lparr>type = ''click'', target = [2]\<rparr> (toggle example_first))
     = [Cb_onOpen, Cb_onClose]"
proof -
  let ?s = "toggle example_first"
  let ?ev = "\<lparr>type = ''click'', target = [2]\<rparr>"
  have l: "live ?s"
    by (rule live_toggle, rule live_constructed, rule Dropdown_example_first)
  have a: "trigger ?s = [0, 0]" "menu ?s = [0, 1]" "isOpened ?s" "\<not> isBrowsing ?s"
    "callbacks ?s = [Cb_onOpen]"
    by (simp_all add: toggle_def priv_open_def record_entry_def example_first_def callbacks_def)
  have b: "target ?ev \<noteq> trigger ?s" "target ?ev \<noteq> menu ?s"
    "\<not> contains (menu ?s) (target ?ev)" "type ?ev = ''click''"
    by (simp_all add: a contains_def)
  have p: "bubble [2] = [Node [2], Node [], Window]"
    by (simp add: bubble.simps)
  have q: "\<not> stopped_by (instance_listeners example_second) (Node [2]) ?ev"
    "\<not> stopped_by (instance_listeners example_second) (Node []) ?ev"
    by (simp_all add: stopped_by_second contains_def)
  have n: "\<forall>c \<in> set (bubble (target ?ev)). c \<noteq> Window \<longrightarrow>
      \<not> stopped_by (instance_listeners example_second) c ?ev"
    using q by (simp add: p)
  show ?thesis
    using outside_click_closes [OF l b(4) b(1,2,3) a(3,4) n] l a b p q by simp
qed

text \<open>
  C6. \<^verbatim>\<open>_open()\<close> on a widget that is already opened, and \<^verbatim>\<open>_close()\<close> on a widget that
  is already closed, return at their guard: the state is the one before but for the
  entry that counts the invocation, so \<open>isOpened\<close>, \<open>isBrowsing\<close> and the marker are
  unchanged and neither \<^verbatim>\<open>onOpen\<close> nor \<^verbatim>\<open>onClose\<close> is called.
\<close>

theorem idempotent_open_close:
  "(isOpened s \<longrightarrow>
      priv_open s = s\<lparr>trace := trace s @ [(now s, Call_open)]\<rparr> \<and>
      isOpened (priv_open s) = isOpened s \<and> isBrowsing (priv_open s) = isBrowsing s \<and>
      expanded (priv_open s) = expanded s \<and> callbacks (priv_open s) = callbacks s) \<and>
   (\<not> isOpened s \<longrightarrow>
      priv_close s = s\<lparr>trace := trace s @ [(now s, Call_close)]\<rparr> \<and>
      isOpened (priv_close s) = isOpened s \<and> isBrowsing (priv_close s) = isBrowsing s \<and>
      expanded (priv_close s) = expanded s \<and> callbacks (priv_close s) = callbacks s)"
  by (simp add: priv_open_opened priv_close_closed) (simp add: record_entry_def)

theorem idempotent_open_close_witness:
  "isOpened (example_state\<lparr>isOpened := True\<rparr>) \<and>
   callbacks (priv_open (example_state\<lparr>isOpened := True\<rparr>)) = [] \<and>
   isOpened (priv_open (example_state\<lparr>isOpened := True\<rparr>)) \<and>
   \<not> isOpened example_state \<and>
   callbacks (priv_close example_state) = [] \<and>
   \<not> isOpened (priv_close example_state)"
  using idempotent_open_close [of "example_state\<lparr>isOpened := True\<rparr>"]
    idempotent_open_close [of example_state]
  by (simp add: example_state_def callbacks_def)

text \<open>
  C7 as stated fails: the constructor reads the marker class from the root element
  \<^verbatim>\<open>this.el\<close>, not from the menu element. In the example page the menu carries the
  marker, the root does not, and the widget starts closed.
\<close>

theorem construct_menu_marker_counterexample:
  "Dropdown example_options example_doc = Inr example_state \<and>
   \<not> isOpened example_state \<and> menu_expanded example_options example_doc"
  by (simp add: Dropdown_example)
    (simp add: example_state_def menu_expanded_def example_options_def example_doc_def
      querySelector_def classList_contains_def openClass_def)

text \<open>
  C7, amended. When the constructor returns, \<open>isOpened\<close> says whether the root element
  \<^verbatim>\<open>options.el\<close> carried the marker class in the document it was given.
\<close>

theorem construct_isOpened:
  assumes "Dropdown opts d = Inr s"
  shows "isOpened s = root_expanded opts d \<and> isOpened s = expanded s"
proof -
  from assms obtain s0 where s: "s = initialize s0"
    and q: "doc s0 = d" "el s0 = opt_el opts"
    by (elim Dropdown_InrD) simp
  show ?thesis
    using q by (simp add: s root_expanded_def expanded_def)
qed

theorem construct_isOpened_witness:
  "Dropdown example_options example_doc = Inr example_state \<and>
   \<not> isOpened example_state \<and> \<not> root_expanded example_options example_doc \<and>
   isOpened (projr (Dropdown \<lparr>opt_el = [], opt_openBy = None, opt_wait = None\<rparr>
                      example_expanded_doc)) \<and>
   \<not> menu_expanded \<lparr>opt_el = [], opt_openBy = None, opt_wait = None\<rparr> example_expanded_doc"
proof -
  let ?o = "\<lparr>opt_el = [], opt_openBy = None, opt_wait = None\<rparr>"
  have "\<exists>s. Dropdown ?o example_expanded_doc = Inr s"
    by (simp add: Dropdown_def example_expanded_doc_def querySelector_def)
  then obtain s where s: "Dropdown ?o example_expanded_doc = Inr s" ..
  have r: "root_expanded ?o example_expanded_doc"
    by (simp add: root_expanded_def example_expanded_doc_def classList_contains_def openClass_def)
  have m: "\<not> menu_expanded ?o example_expanded_doc"
    by (simp add: menu_expanded_def example_expanded_doc_def classList_contains_def
        openClass_def querySelector_def)
  have n: "\<not> root_expanded example_options example_doc"
    by (simp add: root_expanded_def example_doc_def example_options_def
        classList_contains_def openClass_def)
  show ?thesis
    using construct_isOpened [OF Dropdown_example] construct_isOpened [OF s] s r m n
    by (simp add: Dropdown_example)
qed

text \<open>
  C8 says that in hover mode the widget opens when the delay has elapsed after the last
  pointer-enter on the trigger. On the example page, with \<^verbatim>\<open>openBy: 'hover'\<close> and the
  default delay 400, one \<^verbatim>\<open>mouseover\<close> on the trigger at time 0 is delivered. When the
  delay has elapsed, at 400, \<^verbatim>\<open>_open\<close> has not been invoked and the widget is closed;
  it is still so at 799, and \<^verbatim>\<open>_open\<close> is invoked at 800: \<^verbatim>\<open>handleEvent\<close> wraps the
  already debounced \<^verbatim>\<open>open\<close> in a fresh \<^verbatim>\<open>debounce\<close> on every \<^verbatim>\<open>mouseover\<close>, and the
  two wait one delay each.
\<close>

theorem hover_opens_after_two_delays:
  "Dropdown (example_options\<lparr>opt_openBy := Some ''hover''\<rparr>) example_doc = Inr example_hover \<and>
   timeout example_hover = 400 \<and>
   trace (run_until (dispatchEvent [] \<lparr>type = ''mouseover'', target = [1, 0]\<rparr> example_hover) 400)
     = [] \<and>
   \<not> isOpened
      (run_until (dispatchEvent [] \<lparr>type = ''mouseover'', target = [1, 0]\<rparr> example_hover) 400) \<and>
   trace (run_until (dispatchEvent [] \<lparr>type = ''mouseover'', target = [1, 0]\<rparr> example_hover) 799)
     = [] \<and>
   trace (run_until (dispatchEvent [] \<lparr>type = ''mouseover'', target = [1, 0]\<rparr> example_hover) 800)
     = [(800, Call_open), (800, Cb_onOpen)]"
proof -
  have b: "bubble [Suc 0, 0] = [Node [Suc 0, 0], Node [Suc 0], Node [], Window]"
    by (simp add: bubble.simps)
  have d: "dispatchEvent [] \<lparr>type = ''mouseover'', target = [1, 0]\<rparr> example_hover
      = example_hover\<lparr>timers := [Timer 1 400 Wrapper_slot], next_id := 2\<rparr>"
    by (simp add: dispatchEvent_def b stopped_by_def handleEvent_def contains_def debounce_eq
        delay_ms_def to_long_def example_hover_def Let_def)
  show ?thesis
    unfolding d
    by (simp add: Dropdown_example_hover)
      (simp add: run_until.simps next_due_def fire_def debounced_open_def debounce_eq
        delay_ms_def to_long_def priv_open_def record_entry_def example_hover_def Let_def)
qed

text \<open>
  C9. The debounced \<^verbatim>\<open>close\<close> clears only the timer whose id its own variable holds, so
  it leaves every pending timer of the debounced \<^verbatim>\<open>open\<close> and the variable of
  \<^verbatim>\<open>open\<close> alone, and the other way round. Hence a pending timer of \<^verbatim>\<open>open\<close> (with
  no hover wrapper pending that would call \<^verbatim>\<open>open\<close> again) still invokes \<^verbatim>\<open>_open\<close>
  at its due time when \<^verbatim>\<open>close()\<close> is called at a time \<open>t1\<close> inside its window, and
  a pending timer of \<^verbatim>\<open>close\<close> still invokes \<^verbatim>\<open>_close\<close> when \<^verbatim>\<open>open()\<close> is called.
\<close>

theorem independent_timers:
  assumes "timers_ok s"
  shows "filter (\<lambda>t. slot t = Open_slot) (timers (debounced_close s))
           = filter (\<lambda>t. slot t = Open_slot) (timers s) \<and>
         open_timeout (debounced_close s) = open_timeout s \<and>
         filter (\<lambda>t. slot t = Close_slot) (timers (debounced_open s))
           = filter (\<lambda>t. slot t = Close_slot) (timers s) \<and>
         close_timeout (debounced_open s) = close_timeout s \<and>
         (only_pending Open_slot Close_slot tm s \<and> t1 < due tm \<and> due tm \<le> t \<longrightarrow>
            tm \<in> set (timers (debounced_close (run_until s t1))) \<and>
            calls Call_open (run_until (debounced_close (run_until s t1)) t)
              = calls Call_open s @ [due tm]) \<and>
         (only_pending Close_slot Open_slot tm s \<and> t1 < due tm \<and> due tm \<le> t \<longrightarrow>
            tm \<in> set (timers (debounced_open (run_until s t1))) \<and>
            calls Call_close (run_until (debounced_open (run_until s t1)) t)
              = calls Call_close s @ [due tm])"
proof -
  have scenario: "tm \<in> set (timers (debounce g d (run_until s t1))) \<and>
      calls x (run_until (debounce g d (run_until s t1)) t) = calls x s @ [due tm]"
    if p: "only_pending f g tm s" and f: "invocation f = Some x"
      and g: "invocation g \<noteq> None" "g \<noteq> f" and t: "t1 < due tm" "due tm \<le> t"
    for f g x d
  proof -
    let ?s1 = "run_until s t1"
    have 1: "timers_ok ?s1" "only_pending f g tm ?s1" "calls x ?s1 = calls x s"
      using pending_survives_run [OF assms p f g t(1)] by simp_all
    have 2: "timers_ok (debounce g d ?s1)" "only_pending f g tm (debounce g d ?s1)"
      using 1 g by (simp_all add: timers_ok_debounce pending_survives_debounce)
    have "calls x (run_until (debounce g d ?s1) t) = calls x (debounce g d ?s1) @ [due tm]"
      using 2 f g t(2) by (rule pending_fires)
    with 1 2 show ?thesis by (simp add: only_pending_def)
  qed
  have "filter (\<lambda>t. slot t = Open_slot) (timers (debounced_close s))
      = filter (\<lambda>t. slot t = Open_slot) (timers s)"
    and "filter (\<lambda>t. slot t = Close_slot) (timers (debounced_open s))
      = filter (\<lambda>t. slot t = Close_slot) (timers s)"
    using assms by (simp_all add: debounced_close_def debounced_open_def other_slot_kept)
  moreover have "open_timeout (debounced_close s) = open_timeout s"
    and "close_timeout (debounced_open s) = close_timeout s"
    by (simp_all add: debounced_close_def debounced_open_def debounce_cells)
  moreover have "only_pending Open_slot Close_slot tm s \<and> t1 < due tm \<and> due tm \<le> t \<longrightarrow>
      tm \<in> set (timers (debounced_close (run_until s t1))) \<and>
      calls Call_open (run_until (debounced_close (run_until s t1)) t)
        = calls Call_open s @ [due tm]"
    using scenario [of Open_slot Close_slot Call_open] by (simp add: debounced_close_def)
  moreover have "only_pending Close_slot Open_slot tm s \<and> t1 < due tm \<and> due tm \<le> t \<longrightarrow>
      tm \<in> set (timers (debounced_open (run_until s t1))) \<and>
      calls Call_close (run_until (debounced_open (run_until s t1)) t)
        = calls Call_close s @ [due tm]"
    using scenario [of Close_slot Open_slot Call_close] by (simp add: debounced_open_def)
  ultimately show ?thesis by blast
qed

theorem independent_timers_witness:
  "timers_ok (debounced_open example_state) \<and>
   only_pending Open_slot Close_slot (Timer 1 400 Open_slot) (debounced_open example_state) \<and>
   calls Call_open (run_until (debounced_close (run_until (debounced_open example_state) 100)) 400)
     = [400] \<and>
   timers_ok (debounced_close example_state) \<and>
   only_pending Close_slot Open_slot (Timer 1 400 Close_slot) (debounced_close example_state) \<and>
   calls Call_close (run_until (debounced_open (run_until (debounced_close example_state) 100)) 400)
     = [400]"
proof -
  have o: "timers_ok (debounced_open example_state)"
    "only_pending Open_slot Close_slot (Timer 1 400 Open_slot) (debounced_open example_state)"
    "calls Call_open (debounced_open example_state) = []"
    by (simp_all add: timers_ok_def only_pending_def calls_def debounced_open_def debounce_eq delay_ms_def to_long_def
        example_state_def)
  have c: "timers_ok (debounced_close example_state)"
    "only_pending Close_slot Open_slot (Timer 1 400 Close_slot) (debounced_close example_state)"
    "calls Call_close (debounced_close example_state) = []"
    by (simp_all add: timers_ok_def only_pending_def calls_def debounced_close_def debounce_eq delay_ms_def to_long_def
        example_state_def)
  show ?thesis
    using independent_timers [OF o(1), of "Timer 1 400 Open_slot" 100 400]
      independent_timers [OF c(1), of "Timer 1 400 Close_slot" 100 400] o c
    by simp
qed

text \<open>
  C10 as stated fails for a \<^verbatim>\<open>wait\<close> outside the 32-bit range of \<^verbatim>\<open>setTimeout\<close>: the
  widget constructed with \<^verbatim>\<open>wait: 2147483648\<close> stores that number, but the timers of
  its debounced \<^verbatim>\<open>open\<close> and \<^verbatim>\<open>close\<close> are due at once, not 2147483648 ms later.
  A negative \<^verbatim>\<open>wait\<close> is stored as well, and the timers are due at once.
\<close>

theorem wait_out_of_range_counterexample:
  "Dropdown (example_options\<lparr>opt_wait := Some 2147483648\<rparr>) example_doc
     = Inr (example_state\<lparr>timeout := 2147483648\<rparr>) \<and>
   timers (debounced_open (example_state\<lparr>timeout := 2147483648\<rparr>)) = [Timer 1 0 Open_slot] \<and>
   timers (debounced_close (example_state\<lparr>timeout := 2147483648\<rparr>)) = [Timer 1 0 Close_slot] \<and>
   Dropdown (example_options\<lparr>opt_wait := Some (- 5)\<rparr>) example_doc
     = Inr (example_state\<lparr>timeout := - 5\<rparr>) \<and>
   timers (debounced_open (example_state\<lparr>timeout := - 5\<rparr>)) = [Timer 1 0 Open_slot] \<and>
   timers (debounced_close (example_state\<lparr>timeout := - 5\<rparr>)) = [Timer 1 0 Close_slot]"
  using Dropdown_example_wait [of "Some 2147483648"] Dropdown_example_wait [of "Some (- 5)"]
  by (simp add: debounced_open_def debounced_close_def timers_debounce delay_ms_def to_long_def
      example_state_def)

text \<open>
  C10, amended. The constructor assigns \<^verbatim>\<open>this.timeout\<close> only for a truthy \<^verbatim>\<open>wait\<close>:
  with \<^verbatim>\<open>wait\<close> absent or 0 the delay is the prototype's 400, and it is the delay of
  the timers that the debounced \<^verbatim>\<open>open\<close> and \<^verbatim>\<open>close\<close> queue. Any other \<^verbatim>\<open>wait\<close>
  is stored as given, and it is the delay of those timers when it lies between 1 and
  2147483647; in general the delay is what \<^verbatim>\<open>setTimeout\<close> makes of the stored number
  (\<open>delay_ms\<close>).
\<close>

theorem default_wait:
  assumes "Dropdown opts d = Inr s"
  shows "(opt_wait opts = None \<or> opt_wait opts = Some 0 \<longrightarrow>
            timeout s = 400 \<and>
            timers (debounced_open s) = [Timer 1 400 Open_slot] \<and>
            timers (debounced_close s) = [Timer 1 400 Close_slot]) \<and>
         (\<forall>w. opt_wait opts = Some w \<and> w \<noteq> 0 \<longrightarrow>
            timeout s = w \<and>
            (0 < w \<and> w < 2147483648 \<longrightarrow>
               timers (debounced_open s) = [Timer 1 w Open_slot] \<and>
               timers (debounced_close s) = [Timer 1 w Close_slot])) \<and>
         timers (debounced_open s) = [Timer 1 (delay_ms (timeout s)) Open_slot] \<and>
         timers (debounced_close s) = [Timer 1 (delay_ms (timeout s)) Close_slot]"
proof -
  from assms obtain s0 where s: "s = initialize s0"
    and t: "timeout s0 = (case opt_wait opts of None \<Rightarrow> 400
                          | Some w \<Rightarrow> if w \<noteq> 0 then w else 400)"
    and q: "timers s0 = []" "now s0 = 0" "next_id s0 = 1"
    by (elim Dropdown_InrD) simp
  have g: "timers (debounced_open s) = [Timer 1 (delay_ms (timeout s)) Open_slot]"
    "timers (debounced_close s) = [Timer 1 (delay_ms (timeout s)) Close_slot]"
    using q by (simp_all add: s debounced_open_def debounced_close_def timers_debounce)
  have d: "delay_ms 400 = 400" by (simp add: delay_ms_def to_long_def)
  have a: "opt_wait opts = None \<or> opt_wait opts = Some 0 \<longrightarrow> timeout s = 400"
    using t by (auto simp: s)
  have b: "\<forall>w. opt_wait opts = Some w \<and> w \<noteq> 0 \<longrightarrow> timeout s = w"
    using t by (auto simp: s)
  have c: "\<And>w. 0 < w \<Longrightarrow> w < 2147483648 \<Longrightarrow> delay_ms w = w"
    by (simp add: delay_ms_id)
  show ?thesis
    using g a b c d by auto
qed

theorem default_wait_witness:
  "Dropdown example_options example_doc = Inr example_state \<and>
   opt_wait example_options = None \<and> timeout example_state = 400 \<and>
   timers (debounced_open example_state) = [Timer 1 400 Open_slot] \<and>
   Dropdown (example_options\<lparr>opt_wait := Some 0\<rparr>) example_doc = Inr example_state \<and>
   Dropdown (example_options\<lparr>opt_wait := Some 250\<rparr>) example_doc
     = Inr (example_state\<lparr>timeout := 250\<rparr>) \<and>
   timeout (example_state\<lparr>timeout := 250\<rparr>) = 250 \<and>
   timers (debounced_open (example_state\<lparr>timeout := 250\<rparr>)) = [Timer 1 250 Open_slot] \<and>
   timers (debounced_close (example_state\<lparr>timeout := 250\<rparr>)) = [Timer 1 250 Close_slot]"
proof -
  have a: "Dropdown example_options example_doc = Inr example_state"
    by (rule Dropdown_example)
  have b: "Dropdown (example_options\<lparr>opt_wait := Some 0\<rparr>) example_doc = Inr example_state"
    using Dropdown_example_wait [of "Some 0"] by (simp add: example_state_def)
  have c: "Dropdown (example_options\<lparr>opt_wait := Some 250\<rparr>) example_doc
     = Inr (example_state\<lparr>timeout := 250\<rparr>)"
    using Dropdown_example_wait [of "Some 250"] by simp
  show ?thesis
    using default_wait [OF a] default_wait [OF b] default_wait [OF c] a b c
    by (simp add: example_options_def)
qed

end
